theory Spec2Isabelle
  imports Main
begin

section \<open>Typo detector notebook: token alignment and typo annotation\<close>

text \<open>
  The notebook \<^verbatim>\<open>245-typo-detector.ipynb\<close> post-processes the output of a token
  classifier with four small Python functions: \<^verbatim>\<open>token_to_words\<close>,
  \<^verbatim>\<open>get_typo_indexes\<close>, \<^verbatim>\<open>sentence_split\<close> and \<^verbatim>\<open>show_typos\<close>.
  They are embedded here as HOL functions. A Python \<^verbatim>\<open>str\<close> is a \<open>string\<close>; the
  characters the code inspects (\<^verbatim>\<open>#\<close>, the four delimiters) are ASCII, and searching
  for a substring gives the same matches on code points as on their UTF-8 bytes.
  Exceptions are values of the type \<open>error\<close>; a function that can raise returns
  \<open>error + 'a\<close>, with \<open>Inl\<close> for the exception.
\<close>

datatype error = IndexError | KeyError | ValueError

subsection \<open>\<^verbatim>\<open>str.startswith\<close> and \<^verbatim>\<open>token_to_words\<close>\<close>

definition startswith :: "string \<Rightarrow> string \<Rightarrow> bool" where
  "startswith s p = (take (length p) s = p)"

text \<open>
  The loop of \<^verbatim>\<open>token_to_words\<close>, with its two locals \<^verbatim>\<open>word_count\<close> and
  \<^verbatim>\<open>map_to_words\<close> passed along. The dictionary is keyed by the token's text.
\<close>

fun token_to_words_loop :: "string list \<Rightarrow> int \<Rightarrow> (string \<rightharpoonup> int) \<Rightarrow> (string \<rightharpoonup> int)" where
  "token_to_words_loop [] word_count map_to_words = map_to_words"
| "token_to_words_loop (token # tokens) word_count map_to_words =
     (if startswith token ''##''
      then token_to_words_loop tokens word_count (map_to_words(token \<mapsto> word_count))
      else token_to_words_loop tokens (word_count + 1) (map_to_words(token \<mapsto> word_count + 1)))"

definition token_to_words :: "string list \<Rightarrow> (string \<rightharpoonup> int)" where
  "token_to_words tokens = token_to_words_loop tokens (- 1) Map.empty"

subsection \<open>\<^verbatim>\<open>np.argmax\<close> and \<^verbatim>\<open>get_typo_indexes\<close>\<close>

text \<open>
  A class score is a floating-point number. Only its order matters to \<^verbatim>\<open>np.argmax\<close>,
  so a score is either \<open>NaN\<close> or a value of a linear order. \<^verbatim>\<open>np.argmax\<close> returns the
  position of the first maximum, takes the first \<open>NaN\<close> as the maximum, and raises
  \<^verbatim>\<open>ValueError\<close> on an empty array.
\<close>

datatype 'a score = NaN | Num 'a

fun argmax_scan :: "'a::linorder score list \<Rightarrow> nat \<Rightarrow> 'a score \<Rightarrow> nat \<Rightarrow> nat" where
  "argmax_scan [] i mp max_ind = max_ind"
| "argmax_scan (x # xs) i mp max_ind =
     (case mp of
        NaN \<Rightarrow> max_ind
      | Num m \<Rightarrow>
          (case x of
             NaN \<Rightarrow> i
           | Num v \<Rightarrow> if v \<le> m then argmax_scan xs (i + 1) mp max_ind
                      else argmax_scan xs (i + 1) x i))"

definition np_argmax :: "'a::linorder score list \<Rightarrow> error + nat" where
  "np_argmax row = (case row of [] \<Rightarrow> Inl ValueError | x # xs \<Rightarrow> Inr (argmax_scan xs 1 x 0))"

text \<open>The slice \<^verbatim>\<open>xs[1:-1]\<close>: everything but the first and the last element.\<close>

definition slice_inner :: "'a list \<Rightarrow> 'a list" where
  "slice_inner xs = butlast (tl xs)"

text \<open>
  The loop of \<^verbatim>\<open>get_typo_indexes\<close> over \<^verbatim>\<open>result_list\<close>, with the counter \<^verbatim>\<open>c\<close>
  and the list \<^verbatim>\<open>wrong_words\<close>. \<^verbatim>\<open>tokens[c]\<close> raises \<^verbatim>\<open>IndexError\<close> past the end of
  the token list, and \<^verbatim>\<open>map_to_words[...]\<close> raises \<^verbatim>\<open>KeyError\<close> on a missing key.
\<close>

fun typo_loop ::
  "(string \<rightharpoonup> int) \<Rightarrow> string list \<Rightarrow> 'a::linorder score list list \<Rightarrow> nat \<Rightarrow> int list
     \<Rightarrow> error + int list" where
  "typo_loop map_to_words tokens [] c wrong_words = Inr wrong_words"
| "typo_loop map_to_words tokens (i # result_list) c wrong_words =
     (case np_argmax i of
        Inl e \<Rightarrow> Inl e
      | Inr prob \<Rightarrow>
          if prob = 1 then
            (if c < length tokens then
               (case map_to_words (tokens ! c) of
                  None \<Rightarrow> Inl KeyError
                | Some w \<Rightarrow>
                    if w \<notin> set wrong_words
                    then typo_loop map_to_words tokens result_list (c + 1) (wrong_words @ [w])
                    else typo_loop map_to_words tokens result_list (c + 1) wrong_words)
             else Inl IndexError)
          else typo_loop map_to_words tokens result_list (c + 1) wrong_words)"

text \<open>
  \<^verbatim>\<open>result\<close> is the classifier's array of shape \<open>[1, sequence_length, 2]\<close>: a list of
  lists of rows. \<^verbatim>\<open>result[0]\<close> raises \<^verbatim>\<open>IndexError\<close> when the first axis is empty.
\<close>

definition get_typo_indexes ::
  "'a::linorder score list list list \<Rightarrow> (string \<rightharpoonup> int) \<Rightarrow> string list \<Rightarrow> error + int list" where
  "get_typo_indexes result map_to_words tokens =
     (case result of
        [] \<Rightarrow> Inl IndexError
      | r0 # _ \<Rightarrow> typo_loop map_to_words tokens (slice_inner r0) 0 [])"

subsection \<open>\<^verbatim>\<open>re.split\<close> and \<^verbatim>\<open>sentence_split\<close>\<close>

definition is_delim :: "char \<Rightarrow> bool" where
  "is_delim ch = (ch = CHR 0x27 \<or> ch = CHR '','' \<or> ch = CHR ''.'' \<or> ch = CHR '' '')"

text \<open>
  \<^verbatim>\<open>re.split("([',. ])", sentence)\<close>: the pattern matches one delimiter character and
  captures it, so the result alternates the text between two matches (possibly empty)
  with the matched delimiter; \<open>cur\<close> is the text read since the last match.
\<close>

fun re_split_from :: "string \<Rightarrow> string \<Rightarrow> string list" where
  "re_split_from cur [] = [cur]"
| "re_split_from cur (ch # rest) =
     (if is_delim ch then cur # [ch] # re_split_from [] rest
      else re_split_from (cur @ [ch]) rest)"

definition re_split :: "string \<Rightarrow> string list" where
  "re_split sentence = re_split_from [] sentence"

definition sentence_split :: "string \<Rightarrow> string list" where
  "sentence_split sentence = filter (\<lambda>x. x \<noteq> '' '' \<and> x \<noteq> '''') (re_split sentence)"

subsection \<open>\<^verbatim>\<open>str.replace\<close>, list indexing and \<^verbatim>\<open>show_typos\<close>\<close>

text \<open>
  \<^verbatim>\<open>s.replace(old, new)\<close> scans \<open>s\<close> from the left and replaces each occurrence of
  \<open>old\<close> it meets, resuming after the replaced text. With an empty \<open>old\<close> it inserts
  \<open>new\<close> before every character and at the end.
\<close>

fun replace_scan :: "string \<Rightarrow> string \<Rightarrow> string \<Rightarrow> string" where
  "replace_scan old new [] = []"
| "replace_scan old new (ch # rest) =
     (if startswith (ch # rest) old
      then new @ replace_scan old new (drop (length old - 1) rest)
      else ch # replace_scan old new rest)"

definition py_replace :: "string \<Rightarrow> string \<Rightarrow> string \<Rightarrow> string" where
  "py_replace s old new =
     (if old = [] then new @ concat (map (\<lambda>ch. ch # new) s) else replace_scan old new s)"

text \<open>\<^verbatim>\<open>xs[i]\<close> on a Python list: a negative index counts from the end.\<close>

definition py_index :: "'a list \<Rightarrow> int \<Rightarrow> error + 'a" where
  "py_index xs i =
     (if 0 \<le> i \<and> i < int (length xs) then Inr (xs ! nat i)
      else if - int (length xs) \<le> i \<and> i < 0 then Inr (xs ! nat (int (length xs) + i))
      else Inl IndexError)"

text \<open>The comprehension \<^verbatim>\<open>[sentence_words[i] for i in typo_indexes]\<close>.\<close>

fun lookup_words :: "string list \<Rightarrow> int list \<Rightarrow> error + string list" where
  "lookup_words sentence_words [] = Inr []"
| "lookup_words sentence_words (i # typo_indexes) =
     (case py_index sentence_words i of
        Inl e \<Rightarrow> Inl e
      | Inr w \<Rightarrow>
          (case lookup_words sentence_words typo_indexes of
             Inl e \<Rightarrow> Inl e
           | Inr ws \<Rightarrow> Inr (w # ws)))"

text \<open>
  The loop \<^verbatim>\<open>for typo in typos: detected = detected.replace(typo, f'<i>{typo}</i>')\<close>,
  which ends the \<^verbatim>\<open>show_typos\<close> of both methods of the notebook.
\<close>

fun annotate :: "string \<Rightarrow> string list \<Rightarrow> string" where
  "annotate detected [] = detected"
| "annotate detected (typo # typos) =
     annotate (py_replace detected typo (''<i>'' @ typo @ ''</i>'')) typos"

text \<open>The three lines \<^verbatim>\<open>show_typos\<close> prints (\<^verbatim>\<open>print\<close> separates its arguments by a space).\<close>

definition printed :: "string \<Rightarrow> string \<Rightarrow> string list" where
  "printed sentence detected =
     [''   [Input]: '' @ '' '' @ sentence, ''[Detected]: '' @ '' '' @ detected,
      replicate 130 CHR ''-'']"

text \<open>
  \<^verbatim>\<open>show_typos\<close> of the second method. The tokenizer and the compiled model are
  external: \<open>tokenize\<close> stands for \<^verbatim>\<open>tokenizer.tokenize\<close> and \<open>infer\<close> for the
  notebook's \<^verbatim>\<open>infer\<close>. The value is what the call prints.
\<close>

definition show_typos ::
  "(string \<Rightarrow> string list) \<Rightarrow> (string \<Rightarrow> 'a::linorder score list list list) \<Rightarrow> string
     \<Rightarrow> error + string list" where
  "show_typos tokenize infer sentence =
     (let tokens = tokenize sentence;
          map_to_words = token_to_words tokens;
          result = infer sentence
      in case get_typo_indexes result map_to_words tokens of
           Inl e \<Rightarrow> Inl e
         | Inr typo_indexes \<Rightarrow>
             (case lookup_words (sentence_split sentence) typo_indexes of
                Inl e \<Rightarrow> Inl e
              | Inr typos \<Rightarrow> Inr (printed sentence (annotate sentence typos))))"

subsection \<open>Notions used to state the properties\<close>

text \<open>
  The word index of the token at position \<open>i\<close>, counted by position rather than looked
  up by text: the number of tokens without the continuation marker among the first
  \<open>i + 1\<close> tokens, less one.
\<close>

definition word_at :: "string list \<Rightarrow> nat \<Rightarrow> int" where
  "word_at tokens i =
     int (length (filter (\<lambda>t. \<not> startswith t ''##'') (take (Suc i) tokens))) - 1"

text \<open>The positions, counted from \<open>c\<close>, of the rows whose argmax is the typo label 1.\<close>

fun flagged_from :: "'a::linorder score list list \<Rightarrow> nat \<Rightarrow> nat list" where
  "flagged_from [] c = []"
| "flagged_from (row # rows) c =
     (if np_argmax row = Inr 1 then c # flagged_from rows (c + 1)
      else flagged_from rows (c + 1))"

text \<open>
  A list without its repetitions, in order of discovery: each value stays where it is
  first seen and its later copies are dropped.
\<close>

fun first_seen :: "'a list \<Rightarrow> 'a list" where
  "first_seen [] = []"
| "first_seen (x # xs) = x # first_seen (filter (\<lambda>y. y \<noteq> x) xs)"

text \<open>\<open>occurrences t s\<close> lists, counted from \<open>k\<close>, the positions of \<open>s\<close> at which \<open>t\<close> occurs.\<close>

fun occurrences_from :: "nat \<Rightarrow> string \<Rightarrow> string \<Rightarrow> nat list" where
  "occurrences_from k t [] = (if t = [] then [k] else [])"
| "occurrences_from k t (ch # rest) =
     (if startswith (ch # rest) t then k # occurrences_from (k + 1) t rest
      else occurrences_from (k + 1) t rest)"

definition occurrences :: "string \<Rightarrow> string \<Rightarrow> nat list" where
  "occurrences t s = occurrences_from 0 t s"

text \<open>
  \<open>insert_marks mk k s\<close> is the string \<open>s\<close>, whose first character has the position
  \<open>k\<close>, with the string \<open>mk j\<close> inserted in front of the character at each position
  \<open>j\<close>, and at the end.
\<close>

fun insert_marks :: "(nat \<Rightarrow> string) \<Rightarrow> nat \<Rightarrow> string \<Rightarrow> string" where
  "insert_marks mk k [] = mk k"
| "insert_marks mk k (ch # rest) = mk k @ ch # insert_marks mk (k + 1) rest"

text \<open>
  The sentence with every literal occurrence of every flagged word wrapped: for each
  word \<open>t\<close> of \<open>typos\<close> and each position \<open>p\<close> at which \<open>t\<close> occurs in the sentence, an
  opening marker goes in at \<open>p\<close> and a closing marker at \<open>p + length t\<close>. At one
  position the closing markers come before the opening ones. A word listed twice is
  wrapped twice.
\<close>

definition opens_at :: "string \<Rightarrow> string \<Rightarrow> nat \<Rightarrow> bool" where
  "opens_at t s k = (k \<in> set (occurrences t s))"

definition closes_at :: "string \<Rightarrow> string \<Rightarrow> nat \<Rightarrow> bool" where
  "closes_at t s k = (length t \<le> k \<and> k - length t \<in> set (occurrences t s))"

definition closings :: "string list \<Rightarrow> string \<Rightarrow> nat \<Rightarrow> string" where
  "closings typos s k = concat (map (\<lambda>t. if closes_at t s k then ''</i>'' else []) typos)"

definition openings :: "string list \<Rightarrow> string \<Rightarrow> nat \<Rightarrow> string" where
  "openings typos s k = concat (map (\<lambda>t. if opens_at t s k then ''<i>'' else []) typos)"

definition wrapped :: "string list \<Rightarrow> string \<Rightarrow> string" where
  "wrapped typos s = insert_marks (\<lambda>k. closings typos s k @ openings typos s k) 0 s"

text \<open>
  The conditions under which one replacement finds a word exactly where it occurs in
  the sentence. The sentence as annotated so far is \<open>insert_marks mk 0 s\<close>.
  \<^item> \<open>apart t s\<close>: no two occurrences of \<open>t\<close> in the sentence overlap.
  \<^item> \<open>unmarked_inside t mk s\<close>: no marker has been put strictly inside an occurrence
    of \<open>t\<close>.
  \<^item> \<open>new_match t mk k s\<close>: in the annotated sentence, \<open>t\<close> matches at a place where it
    does not occur in the sentence: at a position inside the markers \<open>mk j\<close>
    (\<open>match_within\<close>), or at a character of the sentence from which the sentence itself
    does not read \<open>t\<close>.
\<close>

definition apart :: "string \<Rightarrow> string \<Rightarrow> bool" where
  "apart t s =
     (\<forall>p \<in> set (occurrences t s). \<forall>q \<in> set (occurrences t s).
        p \<noteq> q \<longrightarrow> p + length t \<le> q \<or> q + length t \<le> p)"

definition unmarked_inside :: "string \<Rightarrow> (nat \<Rightarrow> string) \<Rightarrow> string \<Rightarrow> bool" where
  "unmarked_inside t mk s =
     (\<forall>p \<in> set (occurrences t s). \<forall>j \<in> set [Suc p..<p + length t]. mk j = [])"

fun match_within :: "string \<Rightarrow> string \<Rightarrow> string \<Rightarrow> bool" where
  "match_within t [] x = False"
| "match_within t (ch # m) x = (startswith (ch # m @ x) t \<or> match_within t m x)"

fun new_match :: "string \<Rightarrow> (nat \<Rightarrow> string) \<Rightarrow> nat \<Rightarrow> string \<Rightarrow> bool" where
  "new_match t mk k [] = match_within t (mk k) []"
| "new_match t mk k (ch # rest) =
     (match_within t (mk k) (ch # insert_marks mk (k + 1) rest) \<or>
      (startswith (ch # insert_marks mk (k + 1) rest) t \<and> \<not> startswith (ch # rest) t) \<or>
      new_match t mk (k + 1) rest)"

text \<open>The markers after the occurrences of \<open>t\<close> have been wrapped as well.\<close>

definition add_marks :: "string \<Rightarrow> string \<Rightarrow> (nat \<Rightarrow> string) \<Rightarrow> nat \<Rightarrow> string" where
  "add_marks t s mk k =
     (if closes_at t s k then ''</i>'' else []) @ mk k @ (if opens_at t s k then ''<i>'' else [])"

text \<open>
  \<open>undisturbed mk typos s\<close>: taking the words of \<open>typos\<close> in the order of the
  replacements, starting from the markers \<open>mk\<close>, each word meets the three conditions
  with the markers of the words before it.
\<close>

fun undisturbed :: "(nat \<Rightarrow> string) \<Rightarrow> string list \<Rightarrow> string \<Rightarrow> bool" where
  "undisturbed mk [] s = True"
| "undisturbed mk (t # ts) s =
     (apart t s \<and> unmarked_inside t mk s \<and> \<not> new_match t mk 0 s \<and>
      undisturbed (add_marks t s mk) ts s)"

text \<open>
  A simpler condition that is enough: no two different occurrences of flagged words
  overlap, whether of the same word or of two words (\<open>no_overlap\<close>), and the words
  cannot match inside a marker or across its ends, having none of the characters
  \<^verbatim>\<open><\<close> and \<^verbatim>\<open>>\<close> and being none of \<^verbatim>\<open>i\<close>, \<^verbatim>\<open>/\<close> and \<^verbatim>\<open>/i\<close> (\<open>marker_safe\<close>).
  \<open>is_marks m\<close>: the string \<open>m\<close> is made of markers only.
\<close>

definition no_overlap :: "string list \<Rightarrow> string \<Rightarrow> bool" where
  "no_overlap typos s =
     (\<forall>t \<in> set typos. \<forall>u \<in> set typos.
        \<forall>p \<in> set (occurrences t s). \<forall>q \<in> set (occurrences u s).
          (t, p) \<noteq> (u, q) \<longrightarrow> p + length t \<le> q \<or> q + length u \<le> p)"

definition marker_safe :: "string \<Rightarrow> bool" where
  "marker_safe t =
     (CHR ''<'' \<notin> set t \<and> CHR ''>'' \<notin> set t \<and> t \<noteq> ''i'' \<and> t \<noteq> ''/'' \<and> t \<noteq> ''/i'')"

definition is_marks :: "string \<Rightarrow> bool" where
  "is_marks m = (\<exists>ms. set ms \<subseteq> {''<i>'', ''</i>''} \<and> m = concat ms)"

section \<open>Properties of \<^verbatim>\<open>token_to_words\<close>\<close>

lemma word_at_Cons_0: "word_at (t # ts) 0 = (if startswith t ''##'' then - 1 else 0)"
  by (simp add: word_at_def)

lemma word_at_Cons_Suc:
  "word_at (t # ts) (Suc i) = (if startswith t ''##'' then 0 else 1) + word_at ts i"
  by (simp add: word_at_def)

lemma loop_absent:
  "t \<notin> set ts \<Longrightarrow> token_to_words_loop ts wc m t = m t"
  by (induction ts arbitrary: wc m) auto

lemma loop_last_occurrence:
  "i < length ts \<Longrightarrow> ts ! i \<notin> set (drop (Suc i) ts) \<Longrightarrow>
   token_to_words_loop ts wc m (ts ! i) = Some (wc + 1 + word_at ts i)"
proof (induction ts arbitrary: i wc m)
  case Nil
  then show ?case by simp
next
  case (Cons t ts)
  show ?case
  proof (cases i)
    case 0
    with Cons.prems have "t \<notin> set ts" by simp
    then show ?thesis using 0
      by (simp add: loop_absent word_at_Cons_0)
  next
    case (Suc k)
    with Cons.prems have k: "k < length ts" "ts ! k \<notin> set (drop (Suc k) ts)" by simp_all
    show ?thesis using Suc Cons.IH [OF k]
      by (simp add: word_at_Cons_Suc)
  qed
qed

lemma distinct_not_later:
  "distinct ts \<Longrightarrow> i < length ts \<Longrightarrow> ts ! i \<notin> set (drop (Suc i) ts)"
  by (metis Cons_nth_drop_Suc append_take_drop_id distinct.simps(2) distinct_append)

lemma token_to_words_distinct:
  "distinct ts \<Longrightarrow> i < length ts \<Longrightarrow> token_to_words ts (ts ! i) = Some (word_at ts i)"
  using loop_last_occurrence [where ts = ts and i = i and wc = "- 1" and m = Map.empty]
    distinct_not_later [of ts i]
  by (simp add: token_to_words_def)

lemma word_at_no_continuation:
  "\<forall>t \<in> set ts. \<not> startswith t ''##'' \<Longrightarrow> i < length ts \<Longrightarrow> word_at ts i = int i"
proof -
  assume a: "\<forall>t \<in> set ts. \<not> startswith t ''##''" and i: "i < length ts"
  have "filter (\<lambda>t. \<not> startswith t ''##'') (take (Suc i) ts) = take (Suc i) ts"
    using a by (auto simp: filter_id_conv dest: in_set_takeD)
  then show ?thesis using i by (simp add: word_at_def)
qed

lemma word_at_mono: "i \<le> j \<Longrightarrow> word_at ts i \<le> word_at ts j"
proof -
  assume "i \<le> j"
  then have "take (Suc j) ts = take (Suc i) ts @ take (j - i) (drop (Suc i) ts)"
    by (metis Suc_diff_le diff_Suc_Suc le_add_diff_inverse take_add Suc_le_mono)
  then show ?thesis by (simp add: word_at_def)
qed

lemma take_split: "j \<le> i \<Longrightarrow> take (Suc i) ts = take (Suc j) ts @ drop (Suc j) (take (Suc i) ts)"
  by (metis append_take_drop_id min.absorb1 take_take Suc_le_mono)

lemma word_at_continuation_run:
  assumes "j \<le> i" "\<forall>t \<in> set (drop (Suc j) (take (Suc i) ts)). startswith t ''##''"
  shows "word_at ts i = word_at ts j"
proof -
  have "filter (\<lambda>t. \<not> startswith t ''##'') (drop (Suc j) (take (Suc i) ts)) = []"
    using assms(2) by (simp add: filter_empty_conv)
  then have "filter (\<lambda>t. \<not> startswith t ''##'') (take (Suc i) ts)
      = filter (\<lambda>t. \<not> startswith t ''##'') (take (Suc j) ts)"
    using arg_cong [OF take_split [OF assms(1), of ts], of "filter (\<lambda>t. \<not> startswith t ''##'')"]
    by simp
  then show ?thesis by (simp add: word_at_def)
qed

text \<open>
  Claim C2, as amended. When the first token carries the continuation marker and its text
  does not occur again later in the sequence, \<^verbatim>\<open>token_to_words\<close> maps it to the word
  index \<open>-1\<close>, the initial value of the counter, which a continuation token does not
  advance. There is no special case for the first token.
\<close>

theorem first_continuation_token_minus_one:
  "startswith t ''##'' \<Longrightarrow> t \<notin> set ts \<Longrightarrow> token_to_words (t # ts) t = Some (- 1)"
  by (simp add: token_to_words_def loop_absent)

text \<open>The amended claim C2 on the tokens \<^verbatim>\<open>['##a', 'b', '##c']\<close>.\<close>

theorem first_continuation_token_minus_one_witness:
  "startswith ''##a'' ''##'' \<and> ''##a'' \<notin> set [''b'', ''##c''] \<and>
   token_to_words [''##a'', ''b'', ''##c''] ''##a'' = Some (- 1)"
  using first_continuation_token_minus_one [of "''##a''" "[''b'', ''##c'']"]
  by (simp add: startswith_def)

text \<open>
  Claim C2 as stated fails: the single token \<^verbatim>\<open>'##a'\<close> carries the marker and is
  mapped to \<open>-1\<close>, not to \<open>0\<close>.
\<close>

theorem first_continuation_token_not_zero:
  "startswith ''##a'' ''##'' \<and> token_to_words [''##a''] ''##a'' = Some (- 1) \<and>
   token_to_words [''##a''] ''##a'' \<noteq> Some 0"
  by (simp add: token_to_words_def startswith_def)

text \<open>
  Claim C3, as amended. For a token sequence of length \<open>k\<close> with no continuation token
  and pairwise distinct token texts, looking the tokens up in the map built by
  \<^verbatim>\<open>token_to_words\<close>, in input order, gives the indexes \<open>0, 1, ..., k - 1\<close>.
\<close>

theorem no_continuation_distinct_indexes:
  assumes "\<forall>t \<in> set tokens. \<not> startswith t ''##''" and "distinct tokens"
  shows "map (token_to_words tokens) tokens = map (\<lambda>i. Some (int i)) [0..<length tokens]"
proof (rule nth_equalityI)
  show "length (map (token_to_words tokens) tokens) =
        length (map (\<lambda>i. Some (int i)) [0..<length tokens])"
    by simp
next
  fix i assume "i < length (map (token_to_words tokens) tokens)"
  then have i: "i < length tokens" by simp
  have "token_to_words tokens (tokens ! i) = Some (int i)"
    using token_to_words_distinct [OF assms(2) i] word_at_no_continuation [OF assms(1) i]
    by simp
  then show "map (token_to_words tokens) tokens ! i =
             map (\<lambda>i. Some (int i)) [0..<length tokens] ! i"
    using i by simp
qed

text \<open>The amended claim C3 on the tokens \<^verbatim>\<open>['this', 'is', 'a']\<close>.\<close>

theorem no_continuation_distinct_indexes_witness:
  "list_all (\<lambda>t. \<not> startswith t ''##'') [''this'', ''is'', ''a''] \<and>
   distinct [''this'', ''is'', ''a''] \<and>
   map (token_to_words [''this'', ''is'', ''a'']) [''this'', ''is'', ''a'']
     = [Some 0, Some 1, Some 2]"
  using no_continuation_distinct_indexes [of "[''this'', ''is'', ''a'']"]
  by (simp add: startswith_def upt_rec)

text \<open>
  Claim C3 as stated fails when a token text repeats: in \<^verbatim>\<open>['the', 'cat', 'the']\<close> no
  token is a continuation, and the token at position 0 is mapped to 2, the index of its
  last occurrence, since the dictionary is keyed by the token's text.
\<close>

theorem repeated_token_collapses:
  "\<not> startswith ''the'' ''##'' \<and> \<not> startswith ''cat'' ''##'' \<and>
   token_to_words [''the'', ''cat'', ''the''] ([''the'', ''cat'', ''the''] ! 0) = Some 2 \<and>
   token_to_words [''the'', ''cat'', ''the''] ([''the'', ''cat'', ''the''] ! 0) \<noteq> Some 0"
  by (simp add: token_to_words_def startswith_def)

lemma token_to_words_last_occurrence:
  "i < length ts \<Longrightarrow> ts ! i \<notin> set (drop (Suc i) ts) \<Longrightarrow>
   token_to_words ts (ts ! i) = Some (word_at ts i)"
  using loop_last_occurrence [where ts = ts and i = i and wc = "- 1" and m = Map.empty]
  by (simp add: token_to_words_def)

lemma word_at_word_start:
  "j < length ts \<Longrightarrow> \<not> startswith (ts ! j) ''##'' \<Longrightarrow> 0 \<le> word_at ts j"
proof -
  assume j: "j < length ts" and w: "\<not> startswith (ts ! j) ''##''"
  have "ts ! j \<in> set (take (Suc j) ts)"
    using j by (metis in_set_conv_nth length_take lessI min_less_iff_conj nth_take)
  then have "ts ! j \<in> set (filter (\<lambda>t. \<not> startswith t ''##'') (take (Suc j) ts))"
    using w by simp
  then have "filter (\<lambda>t. \<not> startswith t ''##'') (take (Suc j) ts) \<noteq> []"
    by (metis empty_iff list.set(1))
  then have "0 < length (filter (\<lambda>t. \<not> startswith t ''##'') (take (Suc j) ts))" by simp
  then show ?thesis unfolding word_at_def by linarith
qed

lemma last_occurrence_exists:
  "x \<in> set xs \<Longrightarrow> \<exists>k < length xs. xs ! k = x \<and> x \<notin> set (drop (Suc k) xs)"
proof (induction xs)
  case Nil
  then show ?case by simp
next
  case (Cons a xs)
  show ?case
  proof (cases "x \<in> set xs")
    case True
    from Cons.IH [OF this] obtain k where "k < length xs" "xs ! k = x" "x \<notin> set (drop (Suc k) xs)"
      by blast
    then have "Suc k < length (a # xs) \<and> (a # xs) ! Suc k = x \<and> x \<notin> set (drop (Suc (Suc k)) (a # xs))"
      by simp
    then show ?thesis by blast
  next
    case False
    with Cons.prems have "0 < length (a # xs) \<and> (a # xs) ! 0 = x \<and> x \<notin> set (drop (Suc 0) (a # xs))"
      by simp
    then show ?thesis by blast
  qed
qed

lemma token_to_words_same_word:
  assumes "i < length tokens"
    and "\<forall>k \<in> set [Suc i..<length tokens]. tokens ! k = tokens ! i \<longrightarrow>
           (\<forall>t \<in> set (drop (Suc i) (take (Suc k) tokens)). startswith t ''##'')"
  shows "token_to_words tokens (tokens ! i) = Some (word_at tokens i)"
proof -
  have "tokens ! i \<in> set tokens" using assms(1) by simp
  from last_occurrence_exists [OF this] obtain k
    where k: "k < length tokens" "tokens ! k = tokens ! i"
      "tokens ! i \<notin> set (drop (Suc k) tokens)" by blast
  have ik: "i \<le> k"
  proof (rule ccontr)
    assume "\<not> i \<le> k"
    then have ki: "Suc k \<le> i" by simp
    then have "drop (Suc k) tokens ! (i - Suc k) = tokens ! i" using assms(1) by simp
    moreover have "i - Suc k < length (drop (Suc k) tokens)" using ki assms(1) by simp
    ultimately have "tokens ! i \<in> set (drop (Suc k) tokens)" by (metis nth_mem)
    with k(3) show False ..
  qed
  have "word_at tokens k = word_at tokens i"
  proof (cases "i = k")
    case True
    then show ?thesis by simp
  next
    case False
    with ik have "k \<in> set [Suc i..<length tokens]" using k(1) by simp
    with assms(2) k(2) have "\<forall>t \<in> set (drop (Suc i) (take (Suc k) tokens)). startswith t ''##''"
      by blast
    with ik show ?thesis by (rule word_at_continuation_run)
  qed
  moreover have "tokens ! k \<notin> set (drop (Suc k) tokens)" using k(2,3) by simp
  with k(1) have "token_to_words tokens (tokens ! k) = Some (word_at tokens k)"
    by (rule token_to_words_last_occurrence)
  ultimately show ?thesis using k(2) by simp
qed

text \<open>
  Claim C4, as amended. Let the token at position \<open>i\<close> be a continuation, and let
  \<open>j < i\<close> be the position of the nearest preceding token without the marker (all
  tokens at the positions \<open>j + 1, ..., i\<close> carry it). Suppose that the text of the token
  at \<open>j\<close> does not occur again later, and that every later occurrence of the text of
  the token at \<open>i\<close> belongs to the same word, only continuations lying between. Then
  the map built by \<^verbatim>\<open>token_to_words\<close> assigns both tokens the same word index: the
  number of tokens without the marker up to position \<open>j\<close>, less one, which is not
  negative.
\<close>

theorem continuation_shares_word_index:
  assumes "i < length tokens" and "j < i"
    and "\<not> startswith (tokens ! j) ''##''"
    and "\<forall>t \<in> set (drop (Suc j) (take (Suc i) tokens)). startswith t ''##''"
    and "tokens ! j \<notin> set (drop (Suc j) tokens)"
    and "\<forall>k \<in> set [Suc i..<length tokens]. tokens ! k = tokens ! i \<longrightarrow>
           (\<forall>t \<in> set (drop (Suc i) (take (Suc k) tokens)). startswith t ''##'')"
  shows "token_to_words tokens (tokens ! i) = Some (word_at tokens j) \<and>
         token_to_words tokens (tokens ! j) = Some (word_at tokens j) \<and>
         0 \<le> word_at tokens j"
proof -
  have j: "j < length tokens" using assms(1,2) by simp
  have "word_at tokens i = word_at tokens j"
    using word_at_continuation_run [of j i tokens] assms(2,4) by simp
  then have "token_to_words tokens (tokens ! i) = Some (word_at tokens j)"
    using token_to_words_same_word [OF assms(1,6)] by simp
  moreover have "token_to_words tokens (tokens ! j) = Some (word_at tokens j)"
    using j assms(5) by (rule token_to_words_last_occurrence)
  moreover have "0 \<le> word_at tokens j"
    using j assms(3) by (rule word_at_word_start)
  ultimately show ?thesis by simp
qed

text \<open>
  The amended claim C4 on \<^verbatim>\<open>['the', 'the', 'ha', '##ha', '##ha', 'x']\<close>, for the
  continuation at position 3 and the word start at position 2: both are assigned the
  index 2. The repeated \<^verbatim>\<open>'the'\<close> does not matter, nor does the second \<^verbatim>\<open>'##ha'\<close>,
  which belongs to the same word.
\<close>

theorem continuation_shares_word_index_witness:
  "(3::nat) < length [''the'', ''the'', ''ha'', ''##ha'', ''##ha'', ''x''] \<and> (2::nat) < 3 \<and>
   \<not> startswith ([''the'', ''the'', ''ha'', ''##ha'', ''##ha'', ''x''] ! 2) ''##'' \<and>
   list_all (\<lambda>t. startswith t ''##'')
     (drop (Suc 2) (take (Suc 3) [''the'', ''the'', ''ha'', ''##ha'', ''##ha'', ''x''])) \<and>
   [''the'', ''the'', ''ha'', ''##ha'', ''##ha'', ''x''] ! 2
     \<notin> set (drop (Suc 2) [''the'', ''the'', ''ha'', ''##ha'', ''##ha'', ''x'']) \<and>
   [''the'', ''the'', ''ha'', ''##ha'', ''##ha'', ''x''] ! 4
     = [''the'', ''the'', ''ha'', ''##ha'', ''##ha'', ''x''] ! 3 \<and>
   list_all (\<lambda>t. startswith t ''##'')
     (drop (Suc 3) (take (Suc 4) [''the'', ''the'', ''ha'', ''##ha'', ''##ha'', ''x''])) \<and>
   [''the'', ''the'', ''ha'', ''##ha'', ''##ha'', ''x''] ! 5
     \<noteq> [''the'', ''the'', ''ha'', ''##ha'', ''##ha'', ''x''] ! 3 \<and>
   word_at [''the'', ''the'', ''ha'', ''##ha'', ''##ha'', ''x''] 2 = 2 \<and>
   token_to_words [''the'', ''the'', ''ha'', ''##ha'', ''##ha'', ''x''] ''##ha'' = Some 2 \<and>
   token_to_words [''the'', ''the'', ''ha'', ''##ha'', ''##ha'', ''x''] ''ha'' = Some 2"
proof -
  let ?ts = "[''the'', ''the'', ''ha'', ''##ha'', ''##ha'', ''x'']"
  have h1: "3 < length ?ts" by simp
  have h2: "(2::nat) < 3" by simp
  have h3: "\<not> startswith (?ts ! 2) ''##''" by (simp add: startswith_def)
  have h4: "\<forall>t \<in> set (drop (Suc 2) (take (Suc 3) ?ts)). startswith t ''##''"
    by (simp add: startswith_def)
  have h5: "?ts ! 2 \<notin> set (drop (Suc 2) ?ts)" by simp
  have up: "[Suc 3..<length ?ts] = [4, 5]" by (simp add: upt_rec)
  have h6: "\<forall>k \<in> set [Suc 3..<length ?ts]. ?ts ! k = ?ts ! 3 \<longrightarrow>
              (\<forall>t \<in> set (drop (Suc 3) (take (Suc k) ?ts)). startswith t ''##'')"
    unfolding up by (simp add: startswith_def)
  have w: "word_at ?ts 2 = 2" by (simp add: word_at_def startswith_def)
  from continuation_shares_word_index [OF h1 h2 h3 h4 h5 h6] w h1 h3 h5
  show ?thesis by (simp add: startswith_def)
qed

text \<open>
  Claim C4 as stated fails when a token text repeats: in
  \<^verbatim>\<open>['play', '##ing', 'go', '##ing']\<close> the continuation at position 1 follows the word
  start \<^verbatim>\<open>'play'\<close> at position 0, which has the index 0; the map holds 1 for
  \<^verbatim>\<open>'##ing'\<close>, which the last token overwrote.
\<close>

theorem continuation_index_repeated_token:
  "startswith ([''play'', ''##ing'', ''go'', ''##ing''] ! 1) ''##'' \<and>
   \<not> startswith ([''play'', ''##ing'', ''go'', ''##ing''] ! 0) ''##'' \<and>
   token_to_words [''play'', ''##ing'', ''go'', ''##ing'']
     ([''play'', ''##ing'', ''go'', ''##ing''] ! 0) = Some 0 \<and>
   token_to_words [''play'', ''##ing'', ''go'', ''##ing'']
     ([''play'', ''##ing'', ''go'', ''##ing''] ! 1) = Some 1 \<and>
   token_to_words [''play'', ''##ing'', ''go'', ''##ing'']
     ([''play'', ''##ing'', ''go'', ''##ing''] ! 1)
     \<noteq> token_to_words [''play'', ''##ing'', ''go'', ''##ing'']
         ([''play'', ''##ing'', ''go'', ''##ing''] ! 0)"
  by (simp add: token_to_words_def startswith_def)

section \<open>Properties of \<^verbatim>\<open>get_typo_indexes\<close>\<close>

lemma set_first_seen: "set (first_seen xs) = set xs"
  by (induction xs rule: first_seen.induct) auto

lemma distinct_first_seen: "distinct (first_seen xs)"
  by (induction xs rule: first_seen.induct) (auto simp: set_first_seen)

text \<open>In terms of the library: \<open>first_seen\<close> keeps the first copies, \<open>remdups\<close> the last.\<close>

lemma remdups_snoc: "remdups (ys @ [x]) = filter (\<lambda>y. y \<noteq> x) (remdups ys) @ [x]"
  by (induction ys) auto

lemma first_seen_remdups: "first_seen xs = rev (remdups (rev xs))"
proof (induction xs rule: first_seen.induct)
  case 1
  then show ?case by simp
next
  case (2 x xs)
  have "rev (remdups (rev (x # xs))) = x # rev (filter (\<lambda>y. y \<noteq> x) (remdups (rev xs)))"
    by (simp add: remdups_snoc rev_filter)
  also have "filter (\<lambda>y. y \<noteq> x) (remdups (rev xs)) = remdups (rev (filter (\<lambda>y. y \<noteq> x) xs))"
    by (simp add: remdups_filter rev_filter)
  finally show ?case using "2.IH" by simp
qed

lemma typo_loop_first_seen:
  "typo_loop m tokens rows c ww = Inr ws \<Longrightarrow>
   ws = ww @ first_seen (filter (\<lambda>w. w \<notin> set ww)
                           (map (\<lambda>p. the (m (tokens ! p))) (flagged_from rows c)))"
proof (induction rows arbitrary: c ww)
  case Nil
  then show ?case by simp
next
  case (Cons row rows)
  let ?raw = "map (\<lambda>p. the (m (tokens ! p))) (flagged_from rows (c + 1))"
  show ?case
  proof (cases "np_argmax row = Inr 1")
    case False
    with Cons.prems have "typo_loop m tokens rows (c + 1) ww = Inr ws"
      by (auto split: sum.splits if_splits)
    from Cons.IH [OF this] False show ?thesis by simp
  next
    case True
    with Cons.prems obtain w where w: "c < length tokens" "m (tokens ! c) = Some w"
      by (auto split: sum.splits if_splits option.splits)
    show ?thesis
    proof (cases "w \<in> set ww")
      case True
      with Cons.prems \<open>np_argmax row = Inr 1\<close> w
      have "typo_loop m tokens rows (c + 1) ww = Inr ws" by simp
      from Cons.IH [OF this] True w \<open>np_argmax row = Inr 1\<close> show ?thesis by simp
    next
      case False
      with Cons.prems \<open>np_argmax row = Inr 1\<close> w
      have "typo_loop m tokens rows (c + 1) (ww @ [w]) = Inr ws" by simp
      from Cons.IH [OF this]
      have "ws = ww @ w # first_seen (filter (\<lambda>v. v \<notin> set (ww @ [w])) ?raw)" by simp
      moreover have "filter (\<lambda>v. v \<notin> set (ww @ [w])) ?raw
          = filter (\<lambda>y. y \<noteq> w) (filter (\<lambda>v. v \<notin> set ww) ?raw)"
        by (auto intro: filter_cong)
      ultimately show ?thesis using False w \<open>np_argmax row = Inr 1\<close> by simp
    qed
  qed
qed

lemma typo_loop_lookups:
  "typo_loop m tokens rows c ww = Inr ws \<Longrightarrow>
   \<forall>p \<in> set (flagged_from rows c). p < length tokens \<and> m (tokens ! p) \<noteq> None"
proof (induction rows arbitrary: c ww)
  case Nil
  then show ?case by simp
next
  case (Cons row rows)
  from Cons.prems obtain ww' where "typo_loop m tokens rows (c + 1) ww' = Inr ws"
    by (auto split: sum.splits if_splits option.splits)
  from Cons.IH [OF this] Cons.prems show ?case
    by (auto split: sum.splits if_splits option.splits)
qed

text \<open>
  Claim C5. Whenever \<^verbatim>\<open>get_typo_indexes\<close> returns a list, for any classification
  result, word map and token sequence, the list has no duplicate, and it is the
  sequence of word indexes looked up at the flagged positions, in order of discovery,
  with every index kept where it is first seen. Each of these lookups was in range of
  the token list and found its key.
\<close>

theorem typo_indexes_distinct_first_seen:
  assumes "get_typo_indexes (r0 # rs) map_to_words tokens = Inr wrong_words"
  shows "distinct wrong_words \<and>
         wrong_words = first_seen (map (\<lambda>p. the (map_to_words (tokens ! p)))
                                    (flagged_from (slice_inner r0) 0)) \<and>
         (\<forall>p \<in> set (flagged_from (slice_inner r0) 0).
            p < length tokens \<and> map_to_words (tokens ! p) \<noteq> None)"
proof -
  from assms have loop: "typo_loop map_to_words tokens (slice_inner r0) 0 [] = Inr wrong_words"
    by (simp add: get_typo_indexes_def)
  from typo_loop_first_seen [OF loop]
  have eq: "wrong_words = first_seen (map (\<lambda>p. the (map_to_words (tokens ! p)))
                                        (flagged_from (slice_inner r0) 0))"
    by simp
  have "distinct wrong_words" by (subst eq) (rule distinct_first_seen)
  with eq typo_loop_lookups [OF loop] show ?thesis by blast
qed

text \<open>
  Claim C5 on five tokens of which the positions 0, 1, 3 and 4 are flagged; the word
  indexes looked up are 1, 1, 0, 1 and the list returned is \<^verbatim>\<open>[1, 0]\<close>.
\<close>

theorem typo_indexes_distinct_first_seen_witness:
  "get_typo_indexes
     [[[Num 9, Num 0], [Num 1, Num 5], [Num 2, Num 7], [Num 6, Num 0], [Num 3, Num 4],
       [Num 0, Num (8::int)], [Num 9, Num 0]]]
     [''b'' \<mapsto> 1, ''##c'' \<mapsto> 1, ''d'' \<mapsto> 2, ''a'' \<mapsto> 0, ''e'' \<mapsto> 1]
     [''b'', ''##c'', ''d'', ''a'', ''e''] = Inr [1, 0] \<and>
   distinct [1, 0 :: int] \<and>
   [1, 0] = first_seen [1, 1, 0, 1 :: int]"
  using typo_indexes_distinct_first_seen
    [of "[[Num 9, Num 0], [Num 1, Num 5], [Num 2, Num 7], [Num 6, Num 0], [Num 3, Num 4],
          [Num 0, Num (8::int)], [Num 9, Num 0]]" "[]"
        "[''b'' \<mapsto> 1, ''##c'' \<mapsto> 1, ''d'' \<mapsto> 2, ''a'' \<mapsto> 0, ''e'' \<mapsto> 1]"
        "[''b'', ''##c'', ''d'', ''a'', ''e'']" "[1, 0]"]
  by (simp add: get_typo_indexes_def slice_inner_def np_argmax_def)

text \<open>
  Claim C8. On a row whose two class scores are equal, \<^verbatim>\<open>np.argmax\<close> returns the
  lowest index, the label 0, and the loop of \<^verbatim>\<open>get_typo_indexes\<close> goes on to the next
  position with \<^verbatim>\<open>wrong_words\<close> unchanged: the position contributes no word index.
\<close>

theorem tie_selects_correct_label:
  "np_argmax [Num x, Num x] = Inr 0 \<and>
   typo_loop map_to_words tokens ([Num x, Num x] # result_list) c wrong_words
     = typo_loop map_to_words tokens result_list (c + 1) wrong_words"
  by (simp add: np_argmax_def)

lemma flagged_from_bounds: "\<forall>p \<in> set (flagged_from rows c). c \<le> p"
proof (induction rows arbitrary: c)
  case Nil
  then show ?case by simp
next
  case (Cons row rows)
  have "\<forall>p \<in> set (flagged_from rows (c + 1)). c \<le> p"
    using Cons [of "c + 1"] by auto
  then show ?case by simp
qed

lemma flagged_from_increasing: "sorted_wrt (<) (flagged_from rows c)"
proof (induction rows arbitrary: c)
  case Nil
  then show ?case by simp
next
  case (Cons row rows)
  have "\<forall>p \<in> set (flagged_from rows (c + 1)). c < p"
    using flagged_from_bounds [of rows "c + 1"] by auto
  with Cons [of "c + 1"] show ?case by simp
qed

lemma first_seen_sorted:
  "sorted xs \<Longrightarrow> sorted_wrt (<) (first_seen (xs :: 'a::linorder list))"
proof (induction xs rule: first_seen.induct)
  case 1
  then show ?case by simp
next
  case (2 x xs)
  from "2.prems" have "sorted (filter (\<lambda>y. y \<noteq> x) xs)" by (simp add: sorted_wrt_filter)
  from "2.IH" [OF this] have "sorted_wrt (<) (first_seen (filter (\<lambda>y. y \<noteq> x) xs))" .
  moreover have "\<forall>y \<in> set (first_seen (filter (\<lambda>y. y \<noteq> x) xs)). x < y"
    using "2.prems" by (auto simp: set_first_seen)
  ultimately show ?case by simp
qed

text \<open>
  Claim C10. When the token texts are pairwise distinct and the map is the one
  \<^verbatim>\<open>token_to_words\<close> builds from them, the list \<^verbatim>\<open>get_typo_indexes\<close> returns is
  strictly increasing, for every classification result.
\<close>

theorem typo_indexes_strictly_increasing:
  assumes "distinct tokens"
    and "get_typo_indexes result (token_to_words tokens) tokens = Inr wrong_words"
  shows "sorted_wrt (<) wrong_words"
proof -
  from assms(2) obtain r0 rs where result: "result = r0 # rs"
    by (cases result) (auto simp: get_typo_indexes_def)
  let ?ps = "flagged_from (slice_inner r0) 0"
  from assms(2) result
  have loop: "typo_loop (token_to_words tokens) tokens (slice_inner r0) 0 [] = Inr wrong_words"
    by (simp add: get_typo_indexes_def)
  have "\<forall>p \<in> set ?ps. p < length tokens"
    using typo_loop_lookups [OF loop] by blast
  then have raw: "map (\<lambda>p. the (token_to_words tokens (tokens ! p))) ?ps = map (word_at tokens) ?ps"
    using token_to_words_distinct [OF assms(1)] by simp
  have "sorted_wrt (\<le>) ?ps"
    using flagged_from_increasing [of "slice_inner r0" 0]
    by (rule sorted_wrt_mono_rel [rotated]) simp
  then have "sorted (map (word_at tokens) ?ps)"
    unfolding sorted_wrt_map by (rule sorted_wrt_mono_rel [rotated]) (simp add: word_at_mono)
  from first_seen_sorted [OF this] typo_loop_first_seen [OF loop] raw
  show ?thesis by simp
qed

text \<open>
  Claim C10 on five distinct tokens, the positions 0, 1 and 3 flagged: the list returned
  is \<^verbatim>\<open>[0, 2]\<close>.
\<close>

theorem typo_indexes_strictly_increasing_witness:
  "distinct [''th'', ''##e'', ''ct'', ''sat'', ''dwn''] \<and>
   get_typo_indexes
     [[[Num 9, Num 0], [Num 1, Num 5], [Num 2, Num 7], [Num 6, Num 0], [Num 3, Num 4],
       [NaN, Num (8::int)], [Num 9, Num 0]]]
     (token_to_words [''th'', ''##e'', ''ct'', ''sat'', ''dwn''])
     [''th'', ''##e'', ''ct'', ''sat'', ''dwn''] = Inr [0, 2] \<and>
   sorted_wrt (<) [0, 2 :: int]"
proof -
  have d: "distinct [''th'', ''##e'', ''ct'', ''sat'', ''dwn'']" by simp
  have g: "get_typo_indexes
     [[[Num 9, Num 0], [Num 1, Num 5], [Num 2, Num 7], [Num 6, Num 0], [Num 3, Num 4],
       [NaN, Num (8::int)], [Num 9, Num 0]]]
     (token_to_words [''th'', ''##e'', ''ct'', ''sat'', ''dwn''])
     [''th'', ''##e'', ''ct'', ''sat'', ''dwn''] = Inr [0, 2]"
    by (simp add: get_typo_indexes_def slice_inner_def np_argmax_def token_to_words_def
        startswith_def)
  from typo_indexes_strictly_increasing [OF d g] d g show ?thesis by simp
qed

section \<open>Properties of \<^verbatim>\<open>sentence_split\<close>\<close>

lemma concat_re_split_from: "concat (re_split_from cur s) = cur @ s"
  by (induction s arbitrary: cur) auto

lemma re_split_from_elements:
  "\<forall>ch \<in> set cur. \<not> is_delim ch \<Longrightarrow> x \<in> set (re_split_from cur s) \<Longrightarrow>
   (\<exists>d. x = [d] \<and> is_delim d) \<or> (\<forall>ch \<in> set x. \<not> is_delim ch)"
proof (induction s arbitrary: cur)
  case Nil
  then show ?case by simp
next
  case (Cons ch rest)
  show ?case
  proof (cases "is_delim ch")
    case True
    with Cons.prems have "x = cur \<or> x = [ch] \<or> x \<in> set (re_split_from [] rest)" by auto
    then show ?thesis using True Cons.prems(1) Cons.IH [of "[]"] by auto
  next
    case False
    with Cons.prems have "x \<in> set (re_split_from (cur @ [ch]) rest)" by simp
    moreover have "\<forall>c \<in> set (cur @ [ch]). \<not> is_delim c" using False Cons.prems(1) by simp
    ultimately show ?thesis using Cons.IH [of "cur @ [ch]"] by blast
  qed
qed

lemma concat_drop_spaces:
  "\<forall>x \<in> set xs. x = '' '' \<or> CHR '' '' \<notin> set x \<Longrightarrow>
   concat (filter (\<lambda>x. x \<noteq> '' '' \<and> x \<noteq> '''') xs) = filter (\<lambda>ch. ch \<noteq> CHR '' '') (concat xs)"
proof (induction xs)
  case Nil
  then show ?case by simp
next
  case (Cons x xs)
  then have IH: "concat (filter (\<lambda>x. x \<noteq> '' '' \<and> x \<noteq> '''') xs)
      = filter (\<lambda>ch. ch \<noteq> CHR '' '') (concat xs)" by simp
  from Cons.prems have "x = '' '' \<or> CHR '' '' \<notin> set x" by simp
  then show ?case
  proof
    assume "x = '' ''"
    then show ?thesis using IH by simp
  next
    assume "CHR '' '' \<notin> set x"
    then have "filter (\<lambda>ch. ch \<noteq> CHR '' '') x = x" by (auto simp: filter_id_conv)
    then show ?thesis using IH by (cases "x = []") auto
  qed
qed

text \<open>
  Claim C6. The elements \<^verbatim>\<open>sentence_split\<close> returns, concatenated in order, give the
  sentence with its spaces removed; and the split with capture itself loses nothing:
  the elements of \<^verbatim>\<open>re.split\<close>, concatenated, give the sentence back.
\<close>

theorem sentence_split_round_trip:
  "concat (sentence_split sentence) = filter (\<lambda>ch. ch \<noteq> CHR '' '') sentence \<and>
   concat (re_split sentence) = sentence"
proof -
  have whole: "concat (re_split sentence) = sentence"
    by (simp add: re_split_def concat_re_split_from)
  have "\<forall>x \<in> set (re_split sentence). x = '' '' \<or> CHR '' '' \<notin> set x"
  proof
    fix x assume "x \<in> set (re_split sentence)"
    then have "(\<exists>d. x = [d] \<and> is_delim d) \<or> (\<forall>ch \<in> set x. \<not> is_delim ch)"
      using re_split_from_elements [of "[]" x sentence] by (simp add: re_split_def)
    then show "x = '' '' \<or> CHR '' '' \<notin> set x"
      by (auto simp: is_delim_def)
  qed
  from concat_drop_spaces [OF this] whole show ?thesis
    by (simp add: sentence_split_def)
qed

lemma sentence_split_nonempty: "x \<in> set (sentence_split sentence) \<Longrightarrow> x \<noteq> []"
  by (simp add: sentence_split_def)

section \<open>Properties of \<^verbatim>\<open>show_typos\<close>\<close>

lemma typo_loop_none_flagged:
  "\<forall>row \<in> set rows. \<exists>k. np_argmax row = Inr k \<and> k \<noteq> 1 \<Longrightarrow>
   typo_loop m tokens rows c ww = Inr ww"
  by (induction rows arbitrary: c) auto

lemma get_typo_indexes_none_flagged:
  "\<forall>row \<in> set (slice_inner r0). \<exists>k. np_argmax row = Inr k \<and> k \<noteq> 1 \<Longrightarrow>
   get_typo_indexes (r0 # rs) m tokens = Inr []"
  by (simp add: get_typo_indexes_def typo_loop_none_flagged)

text \<open>
  Claim C7. When the extractor flags no typo index for a sentence, the annotated string
  \<^verbatim>\<open>show_typos\<close> prints after \<^verbatim>\<open>[Detected]:\<close> is the sentence itself.
\<close>

theorem no_typos_sentence_unchanged:
  assumes "get_typo_indexes (infer sentence) (token_to_words (tokenize sentence))
             (tokenize sentence) = Inr []"
  shows "show_typos tokenize infer sentence = Inr (printed sentence sentence)"
  using assms by (simp add: show_typos_def)

text \<open>
  Claim C7 on \<^verbatim>\<open>'this is fine'\<close>, with a classifier that gives the label 0 to each of
  the three tokens (one of them by a tie).
\<close>

theorem no_typos_sentence_unchanged_witness:
  "get_typo_indexes
     [[[Num 9, Num 0], [Num 5, Num 1], [Num 2, Num 2], [Num 4, Num 0], [Num (9::int), Num 0]]]
     (token_to_words [''this'', ''is'', ''fine'']) [''this'', ''is'', ''fine''] = Inr [] \<and>
   show_typos (\<lambda>s. [''this'', ''is'', ''fine''])
     (\<lambda>s. [[[Num 9, Num 0], [Num 5, Num 1], [Num 2, Num 2], [Num 4, Num 0],
               [Num (9::int), Num 0]]])
     ''this is fine'' = Inr (printed ''this is fine'' ''this is fine'')"
proof -
  have g: "get_typo_indexes
     [[[Num 9, Num 0], [Num 5, Num 1], [Num 2, Num 2], [Num 4, Num 0], [Num (9::int), Num 0]]]
     (token_to_words [''this'', ''is'', ''fine'']) [''this'', ''is'', ''fine''] = Inr []"
    by (rule get_typo_indexes_none_flagged) (simp add: slice_inner_def np_argmax_def)
  from g no_typos_sentence_unchanged
         [of "\<lambda>s. [[[Num 9, Num 0], [Num 5, Num 1], [Num 2, Num 2], [Num 4, Num 0],
                       [Num (9::int), Num 0]]]"
             "''this is fine''" "\<lambda>s. [''this'', ''is'', ''fine'']"]
  show ?thesis by simp
qed

lemma py_index_in_range:
  "- int (length xs) \<le> i \<Longrightarrow> i < int (length xs) \<Longrightarrow> \<exists>x. py_index xs i = Inr x \<and> x \<in> set xs"
  by (auto simp: py_index_def)

lemma py_index_out_of_range:
  "\<not> (- int (length xs) \<le> i \<and> i < int (length xs)) \<Longrightarrow> py_index xs i = Inl IndexError"
  by (auto simp: py_index_def)

lemma py_index_mem: "py_index xs i = Inr x \<Longrightarrow> x \<in> set xs"
  by (auto simp: py_index_def split: if_splits)

lemma py_index_minus_one: "xs \<noteq> [] \<Longrightarrow> py_index xs (- 1) = Inr (last xs)"
proof -
  assume ne: "xs \<noteq> []"
  then have len: "0 < length xs" by simp
  then have "nat (int (length xs) + - 1) = length xs - 1" by simp
  moreover have "- int (length xs) \<le> - 1" using ne by (cases xs) auto
  ultimately show ?thesis using ne by (simp add: py_index_def last_conv_nth)
qed

lemma lookup_words_in_range:
  "\<forall>i \<in> set idx. - int (length ws) \<le> i \<and> i < int (length ws) \<Longrightarrow>
   \<exists>typos. lookup_words ws idx = Inr typos"
proof (induction idx)
  case Nil
  then show ?case by simp
next
  case (Cons i idx)
  then obtain typos where "lookup_words ws idx = Inr typos" by auto
  moreover from Cons.prems obtain x where "py_index ws i = Inr x"
    using py_index_in_range [of ws i] by auto
  ultimately show ?case by simp
qed

lemma lookup_words_out_of_range:
  "\<exists>i \<in> set idx. \<not> (- int (length ws) \<le> i \<and> i < int (length ws)) \<Longrightarrow>
   lookup_words ws idx = Inl IndexError"
proof (induction idx)
  case Nil
  then show ?case by simp
next
  case (Cons i idx)
  show ?case
  proof (cases "- int (length ws) \<le> i \<and> i < int (length ws)")
    case False
    then show ?thesis by (simp add: py_index_out_of_range)
  next
    case True
    with Cons have "lookup_words ws idx = Inl IndexError" by auto
    moreover from True obtain x where "py_index ws i = Inr x"
      using py_index_in_range [of ws i] by auto
    ultimately show ?thesis by simp
  qed
qed

text \<open>
  Claim C9. The lookup \<^verbatim>\<open>sentence_words[i]\<close> of \<^verbatim>\<open>show_typos\<close> has no guard. When
  every extracted index \<open>i\<close> satisfies \<open>-len \<le> i < len\<close> for the length of the word
  list, all lookups succeed and the annotation is printed; when some extracted index is
  outside that range, \<^verbatim>\<open>show_typos\<close> raises \<^verbatim>\<open>IndexError\<close>; and on a word list that
  is not empty the index \<open>-1\<close> selects the last word instead of failing.
\<close>

theorem word_lookup_unguarded:
  assumes "get_typo_indexes (infer sentence) (token_to_words (tokenize sentence))
             (tokenize sentence) = Inr typo_indexes"
  shows "((\<forall>i \<in> set typo_indexes. - int (length (sentence_split sentence)) \<le> i \<and>
                                   i < int (length (sentence_split sentence))) \<longrightarrow>
          (\<exists>typos. lookup_words (sentence_split sentence) typo_indexes = Inr typos \<and>
                   show_typos tokenize infer sentence
                     = Inr (printed sentence (annotate sentence typos)))) \<and>
         ((\<exists>i \<in> set typo_indexes. \<not> (- int (length (sentence_split sentence)) \<le> i \<and>
                                      i < int (length (sentence_split sentence)))) \<longrightarrow>
          show_typos tokenize infer sentence = Inl IndexError) \<and>
         (sentence_split sentence \<noteq> [] \<longrightarrow>
          py_index (sentence_split sentence) (- 1) = Inr (last (sentence_split sentence)))"
proof (intro conjI impI)
  assume "\<forall>i \<in> set typo_indexes. - int (length (sentence_split sentence)) \<le> i \<and>
                                  i < int (length (sentence_split sentence))"
  from lookup_words_in_range [OF this] obtain typos
    where "lookup_words (sentence_split sentence) typo_indexes = Inr typos" ..
  with assms show "\<exists>typos. lookup_words (sentence_split sentence) typo_indexes = Inr typos \<and>
      show_typos tokenize infer sentence = Inr (printed sentence (annotate sentence typos))"
    by (simp add: show_typos_def)
next
  assume "\<exists>i \<in> set typo_indexes. \<not> (- int (length (sentence_split sentence)) \<le> i \<and>
                                     i < int (length (sentence_split sentence)))"
  from lookup_words_out_of_range [OF this] assms
  show "show_typos tokenize infer sentence = Inl IndexError"
    by (simp add: show_typos_def)
next
  assume "sentence_split sentence \<noteq> []"
  then show "py_index (sentence_split sentence) (- 1) = Inr (last (sentence_split sentence))"
    by (rule py_index_minus_one)
qed

text \<open>
  Claim C9 on two inputs. For \<^verbatim>\<open>'teh cat'\<close> with the tokens \<^verbatim>\<open>['##teh', 'cat']\<close>, the
  first one flagged, the extracted index is \<open>-1\<close> and the word annotated is the last
  one, \<^verbatim>\<open>'cat'\<close>. For \<^verbatim>\<open>'a-b'\<close> with the tokens \<^verbatim>\<open>['a', '-', 'b']\<close>, the last one
  flagged, the extracted index is 2, the word list has one element, and the call raises.
\<close>

theorem word_lookup_unguarded_witness:
  "get_typo_indexes
     [[[Num 9, Num 0], [Num 1, Num 5], [Num 4, Num 0], [Num (9::int), Num 0]]]
     (token_to_words [''##teh'', ''cat'']) [''##teh'', ''cat''] = Inr [- 1] \<and>
   - int (length (sentence_split ''teh cat'')) \<le> - 1 \<and>
   - 1 < int (length (sentence_split ''teh cat'')) \<and>
   sentence_split ''teh cat'' \<noteq> [] \<and>
   py_index (sentence_split ''teh cat'') (- 1) = Inr ''cat'' \<and>
   show_typos (\<lambda>s. [''##teh'', ''cat''])
     (\<lambda>s. [[[Num 9, Num 0], [Num 1, Num 5], [Num 4, Num 0], [Num (9::int), Num 0]]])
     ''teh cat'' = Inr (printed ''teh cat'' ''teh <i>cat</i>'') \<and>
   get_typo_indexes
     [[[Num 9, Num 0], [Num 5, Num 1], [Num 4, Num 0], [Num 1, Num 4], [Num (9::int), Num 0]]]
     (token_to_words [''a'', ''-'', ''b'']) [''a'', ''-'', ''b''] = Inr [2] \<and>
   \<not> 2 < int (length (sentence_split ''a-b'')) \<and>
   show_typos (\<lambda>s. [''a'', ''-'', ''b''])
     (\<lambda>s. [[[Num 9, Num 0], [Num 5, Num 1], [Num 4, Num 0], [Num 1, Num 4],
               [Num (9::int), Num 0]]])
     ''a-b'' = Inl IndexError"
proof -
  have split: "sentence_split ''teh cat'' = [''teh'', ''cat'']" "sentence_split ''a-b'' = [''a-b'']"
    by (simp_all add: sentence_split_def re_split_def is_delim_def)
  have ga: "get_typo_indexes
     [[[Num 9, Num 0], [Num 1, Num 5], [Num 4, Num 0], [Num (9::int), Num 0]]]
     (token_to_words [''##teh'', ''cat'']) [''##teh'', ''cat''] = Inr [- 1]"
    by (simp add: get_typo_indexes_def slice_inner_def np_argmax_def token_to_words_def
        startswith_def)
  have gb: "get_typo_indexes
     [[[Num 9, Num 0], [Num 5, Num 1], [Num 4, Num 0], [Num 1, Num 4], [Num (9::int), Num 0]]]
     (token_to_words [''a'', ''-'', ''b'']) [''a'', ''-'', ''b''] = Inr [2]"
    by (simp add: get_typo_indexes_def slice_inner_def np_argmax_def token_to_words_def
        startswith_def)
  have ann: "annotate ''teh cat'' [''cat''] = ''teh <i>cat</i>''"
    by (simp add: py_replace_def startswith_def)
  from word_lookup_unguarded
         [where infer = "\<lambda>s. [[[Num 9, Num 0], [Num 1, Num 5], [Num 4, Num 0],
                                  [Num (9::int), Num 0]]]"
            and tokenize = "\<lambda>s. [''##teh'', ''cat'']" and sentence = "''teh cat''"
            and typo_indexes = "[- 1]"]
       word_lookup_unguarded
         [where infer = "\<lambda>s. [[[Num 9, Num 0], [Num 5, Num 1], [Num 4, Num 0], [Num 1, Num 4],
                                  [Num (9::int), Num 0]]]"
            and tokenize = "\<lambda>s. [''a'', ''-'', ''b'']" and sentence = "''a-b''"
            and typo_indexes = "[2]"]
       ga gb split ann
  show ?thesis by (simp add: py_index_def)
qed

subsection \<open>The replacement loop\<close>

lemma replace_scan_at_occurrence:
  "t \<noteq> [] \<Longrightarrow> replace_scan t new (t @ rest) = new @ replace_scan t new rest"
  by (cases t) (simp_all add: startswith_def)

lemma startswith_Nil [simp]: "startswith s []"
  by (simp add: startswith_def)

lemma startswith_empty [simp]: "startswith [] u = (u = [])"
  by (auto simp: startswith_def)

lemma startswith_Cons_Cons [simp]:
  "startswith (c # s) (d # u) = (c = d \<and> startswith s u)"
  by (auto simp: startswith_def)

lemma startswith_append_iff: "startswith s t = (\<exists>r. s = t @ r)"
  unfolding startswith_def by (metis append_eq_conv_conj)

lemma mem_occurrences_from:
  "p \<in> set (occurrences_from k t s) = (\<exists>j \<le> length s. p = k + j \<and> startswith (drop j s) t)"
proof (induction s arbitrary: k)
  case Nil
  then show ?case by auto
next
  case (Cons ch rest)
  have "(\<exists>j \<le> length (ch # rest). p = k + j \<and> startswith (drop j (ch # rest)) t)
      = ((p = k \<and> startswith (ch # rest) t) \<or>
         (\<exists>j \<le> length rest. p = (k + 1) + j \<and> startswith (drop j rest) t))"
  proof
    assume "\<exists>j \<le> length (ch # rest). p = k + j \<and> startswith (drop j (ch # rest)) t"
    then obtain j where j: "j \<le> length (ch # rest)" "p = k + j" "startswith (drop j (ch # rest)) t"
      by blast
    show "(p = k \<and> startswith (ch # rest) t) \<or>
         (\<exists>j \<le> length rest. p = (k + 1) + j \<and> startswith (drop j rest) t)"
    proof (cases j)
      case 0
      with j show ?thesis by simp
    next
      case (Suc j')
      with j have "j' \<le> length rest \<and> p = (k + 1) + j' \<and> startswith (drop j' rest) t" by simp
      then show ?thesis by blast
    qed
  next
    assume "(p = k \<and> startswith (ch # rest) t) \<or>
         (\<exists>j \<le> length rest. p = (k + 1) + j \<and> startswith (drop j rest) t)"
    then show "\<exists>j \<le> length (ch # rest). p = k + j \<and> startswith (drop j (ch # rest)) t"
    proof
      assume "p = k \<and> startswith (ch # rest) t"
      then have "0 \<le> length (ch # rest) \<and> p = k + 0 \<and> startswith (drop 0 (ch # rest)) t" by simp
      then show ?thesis by blast
    next
      assume "\<exists>j \<le> length rest. p = (k + 1) + j \<and> startswith (drop j rest) t"
      then obtain j where "j \<le> length rest" "p = (k + 1) + j" "startswith (drop j rest) t" by blast
      then have "Suc j \<le> length (ch # rest) \<and> p = k + Suc j \<and> startswith (drop (Suc j) (ch # rest)) t"
        by simp
      then show ?thesis by blast
    qed
  qed
  then show ?case using Cons.IH [of "k + 1"] by auto
qed

lemma mem_occurrences:
  "p \<in> set (occurrences t s) = (p \<le> length s \<and> startswith (drop p s) t)"
  by (auto simp: occurrences_def mem_occurrences_from)

lemma insert_marks_unmarked:
  "\<forall>j. k \<le> j \<and> j < k + length u \<longrightarrow> mk j = [] \<Longrightarrow>
   insert_marks mk k (u @ v) = u @ insert_marks mk (k + length u) v"
proof (induction u arbitrary: k)
  case Nil
  then show ?case by simp
next
  case (Cons c u)
  have "mk k = []" using Cons.prems by simp
  moreover have "\<forall>j. k + 1 \<le> j \<and> j < (k + 1) + length u \<longrightarrow> mk j = []"
    using Cons.prems by simp
  from Cons.IH [OF this] have "insert_marks mk (k + 1) (u @ v) = u @ insert_marks mk (k + 1 + length u) v" .
  ultimately show ?case by simp
qed

lemma insert_marks_empty: "insert_marks (\<lambda>j. []) k s = s"
  by (induction s arbitrary: k) simp_all

lemma replace_scan_skip:
  "\<not> match_within t m x \<Longrightarrow> replace_scan t new (m @ x) = m @ replace_scan t new x"
  by (induction m) auto

lemma new_match_drop:
  "new_match t mk (k + length u) v \<Longrightarrow> new_match t mk k (u @ v)"
proof (induction u arbitrary: k)
  case Nil
  then show ?case by simp
next
  case (Cons c u)
  from Cons.prems have "new_match t mk ((k + 1) + length u) v" by simp
  then have "new_match t mk (k + 1) (u @ v)" by (rule Cons.IH)
  then show ?case by simp
qed

text \<open>
  One replacement on a sentence that already carries markers: the scan finds the word
  exactly at its occurrences in the sentence and puts the new markers around them.
  The sentence is read as \<open>pre @ s'\<close>, the scan having reached \<open>s'\<close>.
\<close>

lemma replace_scan_quiet:
  assumes t: "t \<noteq> []"
    and self: "\<forall>p \<in> set (occurrences t s). \<forall>q \<in> set (occurrences t s).
                 p \<noteq> q \<longrightarrow> p + length t \<le> q \<or> q + length t \<le> p"
    and clean: "\<forall>p \<in> set (occurrences t s). \<forall>j. p < j \<and> j < p + length t \<longrightarrow> mk j = []"
    and split: "s = pre @ s'"
    and outside: "\<forall>p \<in> set (occurrences t s). \<not> (p < length pre \<and> length pre < p + length t)"
    and quiet: "\<not> new_match t mk (length pre) s'"
  shows "(if closes_at t s (length pre) then ''</i>'' else [])
           @ replace_scan t (''<i>'' @ t @ ''</i>'') (insert_marks mk (length pre) s')
         = insert_marks (\<lambda>j. (if closes_at t s j then ''</i>'' else []) @ mk j
                               @ (if opens_at t s j then ''<i>'' else []))
             (length pre) s'"
  using split outside quiet
proof (induction "length s'" arbitrary: pre s' rule: less_induct)
  case less
  let ?new = "''<i>'' @ t @ ''</i>''"
  let ?mk' = "\<lambda>j. (if closes_at t s j then ''</i>'' else []) @ mk j
                    @ (if opens_at t s j then ''<i>'' else [])"
  let ?k = "length pre"
  let ?L = "length t"
  let ?close = "if closes_at t s ?k then ''</i>'' else []"
  have L: "0 < ?L" using t by simp
  have over: "\<And>x. \<not> match_within t (mk ?k) x \<Longrightarrow>
      replace_scan t ?new (mk ?k @ x) = mk ?k @ replace_scan t ?new x"
    by (rule replace_scan_skip)
  have drop_pre: "drop ?k s = s'" using less.prems(1) by simp
  have len: "length s = ?k + length s'" using less.prems(1) by simp
  show ?case
  proof (cases s')
    case Nil
    have "\<not> opens_at t s ?k"
      using t drop_pre Nil by (simp add: opens_at_def mem_occurrences)
    then have "?mk' ?k = ?close @ mk ?k" by simp
    moreover have "replace_scan t ?new (mk ?k) = mk ?k"
      using over [of "[]"] less.prems(3) Nil by simp
    ultimately show ?thesis using Nil by simp
  next
    case (Cons c cs)
    have q1: "\<not> match_within t (mk ?k) (c # insert_marks mk (?k + 1) cs)"
      and q2: "\<not> (startswith (c # insert_marks mk (?k + 1) cs) t \<and> \<not> startswith (c # cs) t)"
      and q3: "\<not> new_match t mk (?k + 1) cs"
      using less.prems(3) Cons by simp_all
    show ?thesis
    proof (cases "opens_at t s ?k")
      case True
      then have k_occ: "?k \<in> set (occurrences t s)" by (simp add: opens_at_def)
      then have "startswith s' t" using drop_pre by (simp add: mem_occurrences)
      then obtain r where r: "s' = t @ r" by (auto simp: startswith_append_iff)
      from t obtain d u where tu: "t = d # u" by (cases t) auto
      with r Cons have cd: "c = d" and cs: "cs = u @ r" by simp_all
      have Lu: "?k + 1 + length u = ?k + ?L" using tu by simp
      have interior: "\<forall>j. ?k + 1 \<le> j \<and> j < ?k + 1 + length u \<longrightarrow> mk j = []"
        using clean k_occ tu by auto
      have step_in: "insert_marks mk (?k + 1) cs = u @ insert_marks mk (?k + ?L) r"
        unfolding cs using insert_marks_unmarked [OF interior, of r] unfolding Lu .
      have interior': "\<forall>j. ?k + 1 \<le> j \<and> j < ?k + 1 + length u \<longrightarrow> ?mk' j = []"
      proof (intro allI impI)
        fix j assume j: "?k + 1 \<le> j \<and> j < ?k + 1 + length u"
        then have jr: "?k < j" "j < ?k + ?L" using tu by simp_all
        have m: "mk j = []" using interior j by blast
        have c0: "\<not> closes_at t s j"
        proof
          assume "closes_at t s j"
          then have p: "?L \<le> j" "j - ?L \<in> set (occurrences t s)" by (simp_all add: closes_at_def)
          have "j - ?L < ?k \<and> ?k < (j - ?L) + ?L" using jr p(1) by simp
          with less.prems(2) p(2) show False by blast
        qed
        have o0: "\<not> opens_at t s j"
        proof
          assume "opens_at t s j"
          then have "j \<in> set (occurrences t s)" by (simp add: opens_at_def)
          moreover have "j \<noteq> ?k" using jr by simp
          ultimately have "j + ?L \<le> ?k \<or> ?k + ?L \<le> j" using self k_occ by blast
          with jr show False by simp
        qed
        from m c0 o0 show "?mk' j = []" by simp
      qed
      have step_out: "insert_marks ?mk' (?k + 1) cs = u @ insert_marks ?mk' (?k + ?L) r"
        unfolding cs using insert_marks_unmarked [OF interior', of r] unfolding Lu .
      have closes_next: "closes_at t s (?k + ?L)"
        using k_occ by (simp add: closes_at_def)
      have out_next: "\<forall>p \<in> set (occurrences t s).
                        \<not> (p < length (pre @ t) \<and> length (pre @ t) < p + ?L)"
      proof
        fix p assume p: "p \<in> set (occurrences t s)"
        show "\<not> (p < length (pre @ t) \<and> length (pre @ t) < p + ?L)"
        proof
          assume a: "p < length (pre @ t) \<and> length (pre @ t) < p + ?L"
          then have "p \<noteq> ?k" by simp
          with self p k_occ have "p + ?L \<le> ?k \<or> ?k + ?L \<le> p" by blast
          with a show False by simp
        qed
      qed
      have quiet_next: "\<not> new_match t mk (length (pre @ t)) r"
      proof
        assume "new_match t mk (length (pre @ t)) r"
        then have "new_match t mk ((?k + 1) + length u) r" using tu by simp
        then have "new_match t mk (?k + 1) (u @ r)" by (rule new_match_drop)
        with q3 cs show False by simp
      qed
      have "length r < length s'" using r t by simp
      moreover have "s = (pre @ t) @ r" using less.prems(1) r by simp
      ultimately have IH: "(if closes_at t s (length (pre @ t)) then ''</i>'' else [])
            @ replace_scan t ?new (insert_marks mk (length (pre @ t)) r)
          = insert_marks ?mk' (length (pre @ t)) r"
        using out_next quiet_next by (rule less.hyps)
      then have IH': "''</i>'' @ replace_scan t ?new (insert_marks mk (?k + ?L) r)
          = insert_marks ?mk' (?k + ?L) r"
        using closes_next by simp
      have "replace_scan t ?new (insert_marks mk ?k s')
          = mk ?k @ replace_scan t ?new (t @ insert_marks mk (?k + ?L) r)"
        using over [OF q1] Cons step_in tu cd by simp
      also have "\<dots> = mk ?k @ ?new @ replace_scan t ?new (insert_marks mk (?k + ?L) r)"
        using replace_scan_at_occurrence [OF t, of ?new] by simp
      also have "\<dots> = mk ?k @ ''<i>'' @ t @ insert_marks ?mk' (?k + ?L) r"
        using IH' by simp
      finally have lhs: "?close @ replace_scan t ?new (insert_marks mk ?k s')
          = ?close @ mk ?k @ ''<i>'' @ t @ insert_marks ?mk' (?k + ?L) r"
        by simp
      have "insert_marks ?mk' ?k s' = ?mk' ?k @ c # insert_marks ?mk' (?k + 1) cs"
        using Cons by simp
      also have "\<dots> = ?mk' ?k @ t @ insert_marks ?mk' (?k + ?L) r"
        using step_out tu cd by simp
      also have "\<dots> = ?close @ mk ?k @ ''<i>'' @ t @ insert_marks ?mk' (?k + ?L) r"
        using True by simp
      finally show ?thesis using lhs by simp
    next
      case False
      then have k_not: "?k \<notin> set (occurrences t s)" by (simp add: opens_at_def)
      have no_match: "\<not> startswith (c # insert_marks mk (?k + 1) cs) t"
      proof
        assume "startswith (c # insert_marks mk (?k + 1) cs) t"
        with q2 have "startswith s' t" using Cons by simp
        then have "?k \<in> set (occurrences t s)"
          using drop_pre len by (simp add: mem_occurrences)
        with k_not show False ..
      qed
      have out_next: "\<forall>p \<in> set (occurrences t s).
                        \<not> (p < length (pre @ [c]) \<and> length (pre @ [c]) < p + ?L)"
      proof
        fix p assume p: "p \<in> set (occurrences t s)"
        show "\<not> (p < length (pre @ [c]) \<and> length (pre @ [c]) < p + ?L)"
        proof
          assume a: "p < length (pre @ [c]) \<and> length (pre @ [c]) < p + ?L"
          have "p \<noteq> ?k" using p k_not by blast
          with a have "p < ?k \<and> ?k < p + ?L" by simp
          with less.prems(2) p show False by blast
        qed
      qed
      have no_close: "\<not> closes_at t s (?k + 1)"
      proof
        assume "closes_at t s (?k + 1)"
        then have p: "?L \<le> ?k + 1" "?k + 1 - ?L \<in> set (occurrences t s)"
          by (simp_all add: closes_at_def)
        have "?k + 1 - ?L \<noteq> ?k" using p(2) k_not by metis
        then have "?k + 1 - ?L < ?k \<and> ?k < (?k + 1 - ?L) + ?L" using p(1) L by linarith
        with less.prems(2) p(2) show False by blast
      qed
      have "length cs < length s'" using Cons by simp
      moreover have "s = (pre @ [c]) @ cs" using less.prems(1) Cons by simp
      moreover note out_next
      moreover have "\<not> new_match t mk (length (pre @ [c])) cs" using q3 by simp
      ultimately have IH: "(if closes_at t s (length (pre @ [c])) then ''</i>'' else [])
            @ replace_scan t ?new (insert_marks mk (length (pre @ [c])) cs)
          = insert_marks ?mk' (length (pre @ [c])) cs"
        by (rule less.hyps)
      then have IH': "replace_scan t ?new (insert_marks mk (?k + 1) cs)
          = insert_marks ?mk' (?k + 1) cs"
        using no_close by simp
      have "replace_scan t ?new (insert_marks mk ?k s')
          = mk ?k @ replace_scan t ?new (c # insert_marks mk (?k + 1) cs)"
        using over [OF q1] Cons by simp
      also have "\<dots> = mk ?k @ c # insert_marks ?mk' (?k + 1) cs"
        using no_match IH' by simp
      finally have lhs: "?close @ replace_scan t ?new (insert_marks mk ?k s')
          = ?close @ mk ?k @ c # insert_marks ?mk' (?k + 1) cs"
        by simp
      have "insert_marks ?mk' ?k s' = ?mk' ?k @ c # insert_marks ?mk' (?k + 1) cs"
        using Cons by simp
      also have "\<dots> = ?close @ mk ?k @ c # insert_marks ?mk' (?k + 1) cs"
        using False by simp
      finally show ?thesis using lhs by simp
    qed
  qed
qed

lemma py_replace_quiet:
  assumes "t \<noteq> []" and "apart t s" and "unmarked_inside t mk s" and "\<not> new_match t mk 0 s"
  shows "py_replace (insert_marks mk 0 s) t (''<i>'' @ t @ ''</i>'') = insert_marks (add_marks t s mk) 0 s"
proof -
  have self: "\<forall>p \<in> set (occurrences t s). \<forall>q \<in> set (occurrences t s).
                p \<noteq> q \<longrightarrow> p + length t \<le> q \<or> q + length t \<le> p"
    using assms(2) by (simp add: apart_def)
  have clean: "\<forall>p \<in> set (occurrences t s). \<forall>j. p < j \<and> j < p + length t \<longrightarrow> mk j = []"
    using assms(3) by (auto simp: unmarked_inside_def)
  have c0: "\<not> closes_at t s 0" using assms(1) by (simp add: closes_at_def)
  have sp: "s = [] @ s" by simp
  have out: "\<forall>p \<in> set (occurrences t s).
               \<not> (p < length ([]::string) \<and> length ([]::string) < p + length t)"
    by simp
  have q: "\<not> new_match t mk (length ([]::string)) s" using assms(4) by simp
  have "(if closes_at t s (length ([]::string)) then ''</i>'' else [])
          @ replace_scan t (''<i>'' @ t @ ''</i>'') (insert_marks mk (length ([]::string)) s)
        = insert_marks (\<lambda>j. (if closes_at t s j then ''</i>'' else []) @ mk j
                              @ (if opens_at t s j then ''<i>'' else []))
            (length ([]::string)) s"
    using assms(1) self clean sp out q by (rule replace_scan_quiet)
  moreover have "(\<lambda>j. (if closes_at t s j then ''</i>'' else []) @ mk j
                        @ (if opens_at t s j then ''<i>'' else [])) = add_marks t s mk"
    by (rule ext) (simp add: add_marks_def)
  ultimately show ?thesis using c0 assms(1) by (simp add: py_replace_def)
qed

lemma closings_Cons:
  "closings (t # ts) s j = (if closes_at t s j then ''</i>'' else []) @ closings ts s j"
  by (simp add: closings_def)

lemma openings_Cons:
  "openings (t # ts) s j = (if opens_at t s j then ''<i>'' else []) @ openings ts s j"
  by (simp add: openings_def)

lemma closings_commute: "closings ts s j @ ''</i>'' = ''</i>'' @ closings ts s j"
  by (induction ts) (simp_all add: closings_def)

lemma annotate_quiet:
  "\<forall>t \<in> set ts. t \<noteq> [] \<Longrightarrow> undisturbed mk ts s \<Longrightarrow>
   annotate (insert_marks mk 0 s) ts
     = insert_marks (\<lambda>j. closings ts s j @ mk j @ openings ts s j) 0 s"
proof (induction ts arbitrary: mk)
  case Nil
  then show ?case by (simp add: closings_def openings_def)
next
  case (Cons t ts)
  have t: "t \<noteq> []" using Cons.prems(1) by simp
  have u: "apart t s" "unmarked_inside t mk s" "\<not> new_match t mk 0 s"
    using Cons.prems(2) by simp_all
  have stage: "py_replace (insert_marks mk 0 s) t (''<i>'' @ t @ ''</i>'')
      = insert_marks (add_marks t s mk) 0 s"
    using t u by (rule py_replace_quiet)
  have "annotate (insert_marks mk 0 s) (t # ts) = annotate (insert_marks (add_marks t s mk) 0 s) ts"
    using stage by simp
  also have "\<dots> = insert_marks (\<lambda>j. closings ts s j @ add_marks t s mk j @ openings ts s j) 0 s"
    using Cons.prems by (simp add: Cons.IH)
  also have "(\<lambda>j. closings ts s j @ add_marks t s mk j @ openings ts s j)
      = (\<lambda>j. closings (t # ts) s j @ mk j @ openings (t # ts) s j)"
  proof
    fix j
    show "closings ts s j @ add_marks t s mk j @ openings ts s j
        = closings (t # ts) s j @ mk j @ openings (t # ts) s j"
      using closings_commute [of ts s j]
      by (simp add: closings_Cons openings_Cons add_marks_def)
  qed
  finally show ?case .
qed

lemma lookup_words_mem:
  "lookup_words ws idx = Inr typos \<Longrightarrow> set typos \<subseteq> set ws"
proof (induction idx arbitrary: typos)
  case Nil
  then show ?case by simp
next
  case (Cons i idx)
  from Cons.prems obtain w rest where w: "py_index ws i = Inr w" "lookup_words ws idx = Inr rest"
      "typos = w # rest"
    by (auto split: sum.splits)
  from Cons.IH [OF w(2)] py_index_mem [OF w(1)] w(3) show ?case by simp
qed

text \<open>
  Claim C1, as amended. Let the extractor return a list of word indexes for a sentence
  and let \<open>typos\<close> be the words at these indexes. Suppose that each of these words, in
  the order of the replacements, has no two overlapping occurrences in the sentence,
  has no marker of an earlier word strictly inside one of its occurrences, and matches
  the sentence as annotated so far only where it occurs in the sentence, never inside
  or across a marker. Then the annotated string \<^verbatim>\<open>show_typos\<close> prints is the sentence
  with \<^verbatim>\<open><i>\<close> inserted before and \<^verbatim>\<open></i>\<close> inserted after every literal occurrence of
  every one of these words: every occurrence is wrapped, not only the flagged one.
\<close>

theorem each_occurrence_wrapped_when_undisturbed:
  assumes "get_typo_indexes (infer sentence) (token_to_words (tokenize sentence))
             (tokenize sentence) = Inr typo_indexes"
    and "lookup_words (sentence_split sentence) typo_indexes = Inr typos"
    and "undisturbed (\<lambda>k. []) typos sentence"
  shows "show_typos tokenize infer sentence
           = Inr (printed sentence (wrapped typos sentence))"
proof -
  have ne: "\<forall>t \<in> set typos. t \<noteq> []"
    using lookup_words_mem [OF assms(2)] sentence_split_nonempty by blast
  have "annotate (insert_marks (\<lambda>k. []) 0 sentence) typos
      = insert_marks (\<lambda>j. closings typos sentence j @ [] @ openings typos sentence j) 0 sentence"
    using ne assms(3) by (rule annotate_quiet)
  then have "annotate sentence typos = wrapped typos sentence"
    by (simp add: insert_marks_empty wrapped_def)
  then show ?thesis using assms(1,2) by (simp add: show_typos_def)
qed

text \<open>
  The condition of the amended claim holds whenever no two different occurrences of
  the flagged words overlap and every flagged word but the first is \<open>marker_safe\<close>.
\<close>

lemma is_marks_Nil: "is_marks []"
  unfolding is_marks_def by (rule exI [of _ "[]"]) simp

lemma is_marks_open: "is_marks ''<i>''"
  unfolding is_marks_def by (rule exI [of _ "[''<i>'']"]) simp

lemma is_marks_close: "is_marks ''</i>''"
  unfolding is_marks_def by (rule exI [of _ "[''</i>'']"]) simp

lemma is_marks_append: "is_marks a \<Longrightarrow> is_marks b \<Longrightarrow> is_marks (a @ b)"
proof -
  assume "is_marks a" "is_marks b"
  then obtain ma mb where "set ma \<subseteq> {''<i>'', ''</i>''}" "a = concat ma"
      "set mb \<subseteq> {''<i>'', ''</i>''}" "b = concat mb"
    unfolding is_marks_def by blast
  then have "set (ma @ mb) \<subseteq> {''<i>'', ''</i>''} \<and> a @ b = concat (ma @ mb)" by simp
  then show ?thesis unfolding is_marks_def by blast
qed

lemma is_marks_hd: "is_marks m \<Longrightarrow> m \<noteq> [] \<Longrightarrow> hd m = CHR ''<''"
proof -
  assume "is_marks m" and ne: "m \<noteq> []"
  then obtain ms where ms: "set ms \<subseteq> {''<i>'', ''</i>''}" "m = concat ms"
    unfolding is_marks_def by blast
  from ms ne show ?thesis
  proof (induction ms arbitrary: m)
    case Nil
    then show ?case by simp
  next
    case (Cons x xs)
    then have "x = ''<i>'' \<or> x = ''</i>''" by simp
    then show ?case using Cons.prems(2) by auto
  qed
qed

lemma no_match_lt: "marker_safe t \<Longrightarrow> t \<noteq> [] \<Longrightarrow> \<not> startswith (CHR ''<'' # x) t"
  by (cases t) (auto simp: marker_safe_def)

lemma no_match_gt: "marker_safe t \<Longrightarrow> t \<noteq> [] \<Longrightarrow> \<not> startswith (CHR ''>'' # x) t"
  by (cases t) (auto simp: marker_safe_def)

lemma no_match_i: "marker_safe t \<Longrightarrow> t \<noteq> [] \<Longrightarrow> \<not> startswith (CHR ''i'' # CHR ''>'' # x) t"
proof (cases t)
  case Nil
  assume "t \<noteq> []"
  with Nil show ?thesis by simp
next
  case (Cons d u)
  assume safe: "marker_safe t"
  show ?thesis
  proof (cases u)
    case Nil
    with Cons safe show ?thesis by (auto simp: marker_safe_def)
  next
    case (Cons e u')
    with \<open>t = d # u\<close> safe show ?thesis by (auto simp: marker_safe_def)
  qed
qed

lemma no_match_slash:
  "marker_safe t \<Longrightarrow> t \<noteq> [] \<Longrightarrow> \<not> startswith (CHR ''/'' # CHR ''i'' # CHR ''>'' # x) t"
proof (cases t)
  case Nil
  assume "t \<noteq> []"
  with Nil show ?thesis by simp
next
  case t: (Cons d u)
  assume safe: "marker_safe t"
  show ?thesis
  proof (cases u)
    case Nil
    with t safe show ?thesis by (auto simp: marker_safe_def)
  next
    case u: (Cons e u')
    show ?thesis
    proof (cases u')
      case Nil
      with t u safe show ?thesis by (auto simp: marker_safe_def)
    next
      case (Cons f u'')
      with t u safe show ?thesis by (auto simp: marker_safe_def)
    qed
  qed
qed

lemma match_through_marks:
  "startswith (insert_marks mk k cs) u \<Longrightarrow> \<forall>j. mk j \<noteq> [] \<longrightarrow> hd (mk j) \<notin> set u \<Longrightarrow>
   startswith cs u"
proof (induction cs arbitrary: u k)
  case Nil
  show ?case
  proof (cases u)
    case Nil
    then show ?thesis by simp
  next
    case (Cons d u')
    with Nil.prems(1) have "mk k \<noteq> []" "hd (mk k) = d"
      by (auto simp: startswith_append_iff)
    with Nil.prems(2) Cons show ?thesis by auto
  qed
next
  case (Cons c cs)
  show ?case
  proof (cases u)
    case Nil
    then show ?thesis by simp
  next
    case u: (Cons d u')
    have "mk k = []"
    proof (rule ccontr)
      assume ne: "mk k \<noteq> []"
      then obtain a m' where m: "mk k = a # m'" by (cases "mk k") auto
      with Cons.prems(1) u have "a = d" by simp
      with m have "hd (mk k) \<in> set u" using u by simp
      with Cons.prems(2) ne show False by blast
    qed
    with Cons.prems(1) u have "c = d" "startswith (insert_marks mk (k + 1) cs) u'" by simp_all
    moreover have "\<forall>j. mk j \<noteq> [] \<longrightarrow> hd (mk j) \<notin> set u'" using Cons.prems(2) u by simp
    ultimately show ?thesis using Cons.IH [of "k + 1" u'] u by simp
  qed
qed

lemma match_within_marks:
  assumes "marker_safe t" and "t \<noteq> []" and "is_marks m"
  shows "\<not> match_within t m x"
proof -
  from assms(3) obtain ms where ms: "set ms \<subseteq> {''<i>'', ''</i>''}" "m = concat ms"
    unfolding is_marks_def by blast
  have "\<not> match_within t (concat ms) x" using ms(1)
  proof (induction ms)
    case Nil
    then show ?case by simp
  next
    case (Cons y ys)
    then have IH: "\<not> match_within t (concat ys) x" by simp
    from Cons.prems have "y = ''<i>'' \<or> y = ''</i>''" by simp
    then show ?case
    proof
      assume "y = ''<i>''"
      then show ?thesis
        using IH no_match_lt [OF assms(1,2), of "CHR ''i'' # CHR ''>'' # concat ys @ x"]
          no_match_i [OF assms(1,2), of "concat ys @ x"]
          no_match_gt [OF assms(1,2), of "concat ys @ x"]
        by simp
    next
      assume "y = ''</i>''"
      then show ?thesis
        using IH
          no_match_lt [OF assms(1,2), of "CHR ''/'' # CHR ''i'' # CHR ''>'' # concat ys @ x"]
          no_match_slash [OF assms(1,2), of "concat ys @ x"]
          no_match_i [OF assms(1,2), of "concat ys @ x"]
          no_match_gt [OF assms(1,2), of "concat ys @ x"]
        by simp
    qed
  qed
  then show ?thesis using ms(2) by simp
qed

lemma quiet_when_safe:
  assumes "t \<noteq> []" and "\<forall>j. mk j \<noteq> [] \<longrightarrow> marker_safe t \<and> is_marks (mk j)"
  shows "\<not> new_match t mk k s'"
proof (induction s' arbitrary: k)
  case Nil
  show ?case
  proof (cases "mk k = []")
    case True
    then show ?thesis by simp
  next
    case False
    with assms(2) have "marker_safe t" "is_marks (mk k)" by blast+
    then show ?thesis using assms(1) by (simp add: match_within_marks)
  qed
next
  case (Cons c cs)
  have a: "\<not> match_within t (mk k) (c # insert_marks mk (k + 1) cs)"
  proof (cases "mk k = []")
    case True
    then show ?thesis by simp
  next
    case False
    with assms(2) have "marker_safe t" "is_marks (mk k)" by blast+
    then show ?thesis using assms(1) by (simp add: match_within_marks)
  qed
  have b: "\<not> (startswith (c # insert_marks mk (k + 1) cs) t \<and> \<not> startswith (c # cs) t)"
  proof
    assume m: "startswith (c # insert_marks mk (k + 1) cs) t \<and> \<not> startswith (c # cs) t"
    from assms(1) obtain d u where tu: "t = d # u" by (cases t) auto
    with m have cd: "c = d" and mu: "startswith (insert_marks mk (k + 1) cs) u" by simp_all
    have "\<forall>j. mk j \<noteq> [] \<longrightarrow> hd (mk j) \<notin> set u"
    proof (intro allI impI)
      fix j assume ne: "mk j \<noteq> []"
      with assms(2) have "marker_safe t" "is_marks (mk j)" by blast+
      then have "hd (mk j) = CHR ''<''" "CHR ''<'' \<notin> set t"
        using ne by (simp_all add: is_marks_hd marker_safe_def)
      then show "hd (mk j) \<notin> set u" using tu by simp
    qed
    with mu have "startswith cs u" by (rule match_through_marks)
    then have "startswith (c # cs) t" using tu cd by simp
    with m show False by simp
  qed
  from a b Cons [of "k + 1"] show ?case by simp
qed

lemma is_marks_add_marks: "is_marks (mk j) \<Longrightarrow> is_marks (add_marks t s mk j)"
  by (simp add: add_marks_def is_marks_append is_marks_open is_marks_close is_marks_Nil)

lemma no_overlap_tail: "no_overlap (t # ts) s \<Longrightarrow> no_overlap ts s"
  by (simp add: no_overlap_def)

lemma no_overlap_self:
  "no_overlap ts s \<Longrightarrow> t \<in> set ts \<Longrightarrow>
   \<forall>p \<in> set (occurrences t s). \<forall>q \<in> set (occurrences t s).
     p \<noteq> q \<longrightarrow> p + length t \<le> q \<or> q + length t \<le> p"
  unfolding no_overlap_def by blast

lemma no_overlap_pair:
  "no_overlap ts s \<Longrightarrow> t \<in> set ts \<Longrightarrow> u \<in> set ts \<Longrightarrow>
   p \<in> set (occurrences t s) \<Longrightarrow> q \<in> set (occurrences u s) \<Longrightarrow> (t, p) \<noteq> (u, q) \<Longrightarrow>
   p + length t \<le> q \<or> q + length u \<le> p"
  unfolding no_overlap_def by blast

lemma undisturbed_when_safe:
  assumes "\<forall>t \<in> set ts. t \<noteq> []"
    and "list_all marker_safe (tl ts)"
    and "(\<exists>j. mk j \<noteq> []) \<longrightarrow> list_all marker_safe ts"
    and "\<forall>j. is_marks (mk j)"
    and "no_overlap ts s"
    and "\<forall>t \<in> set ts. \<forall>p \<in> set (occurrences t s). \<forall>j. p < j \<and> j < p + length t \<longrightarrow> mk j = []"
  shows "undisturbed mk ts s"
  using assms
proof (induction ts arbitrary: mk)
  case Nil
  then show ?case by simp
next
  case (Cons t ts)
  have t: "t \<noteq> []" using Cons.prems(1) by simp
  have safe_ts: "list_all marker_safe ts" using Cons.prems(2) by simp
  have safe: "\<forall>j. mk j \<noteq> [] \<longrightarrow> marker_safe t \<and> is_marks (mk j)"
    using Cons.prems(3,4) by auto
  have a: "apart t s"
    using no_overlap_self [OF Cons.prems(5), of t] by (simp add: apart_def)
  have b: "unmarked_inside t mk s"
    using Cons.prems(6) by (auto simp: unmarked_inside_def)
  have c: "\<not> new_match t mk 0 s" using t safe by (rule quiet_when_safe)
  have ne': "\<forall>u \<in> set ts. u \<noteq> []" using Cons.prems(1) by simp
  have tl': "list_all marker_safe (tl ts)" using safe_ts by (cases ts) simp_all
  have hd': "(\<exists>j. add_marks t s mk j \<noteq> []) \<longrightarrow> list_all marker_safe ts" using safe_ts by simp
  have marks': "\<forall>j. is_marks (add_marks t s mk j)"
    using Cons.prems(4) by (simp add: is_marks_add_marks)
  have apart': "no_overlap ts s" using Cons.prems(5) by (rule no_overlap_tail)
  have clean': "\<forall>u \<in> set ts. \<forall>q \<in> set (occurrences u s).
                  \<forall>j. q < j \<and> j < q + length u \<longrightarrow> add_marks t s mk j = []"
  proof (intro ballI allI impI)
    fix u q j
    assume u: "u \<in> set ts" and q: "q \<in> set (occurrences u s)" and j: "q < j \<and> j < q + length u"
    have m: "mk j = []" using Cons.prems(6) u q j by auto
    have c0: "\<not> closes_at t s j"
    proof
      assume "closes_at t s j"
      then have p: "length t \<le> j" "j - length t \<in> set (occurrences t s)"
        by (simp_all add: closes_at_def)
      have "(t, j - length t) \<noteq> (u, q)"
      proof
        assume "(t, j - length t) = (u, q)"
        then have "j = q + length u" using p(1) by auto
        with j show False by simp
      qed
      then have "(j - length t) + length t \<le> q \<or> q + length u \<le> j - length t"
        using no_overlap_pair [OF Cons.prems(5), of t u "j - length t" q] p(2) q u by simp
      with j p(1) show False by auto
    qed
    have o0: "\<not> opens_at t s j"
    proof
      assume "opens_at t s j"
      then have p: "j \<in> set (occurrences t s)" by (simp add: opens_at_def)
      have "(t, j) \<noteq> (u, q)" using j by auto
      then have "j + length t \<le> q \<or> q + length u \<le> j"
        using no_overlap_pair [OF Cons.prems(5), of t u j q] p q u by simp
      with j show False by simp
    qed
    from m c0 o0 show "add_marks t s mk j = []" by (simp add: add_marks_def)
  qed
  have "undisturbed (add_marks t s mk) ts s"
    using ne' tl' hd' marks' apart' clean' by (rule Cons.IH)
  with a b c show ?case by simp
qed

lemma undisturbed_sufficient:
  assumes "\<forall>t \<in> set typos. t \<noteq> []" and "no_overlap typos s" and "list_all marker_safe (tl typos)"
  shows "undisturbed (\<lambda>k. []) typos s"
  using assms(1,3) _ _ assms(2)
proof (rule undisturbed_when_safe)
  show "(\<exists>j. ([]::string) \<noteq> []) \<longrightarrow> list_all marker_safe typos" by simp
  show "\<forall>j. is_marks []" by (simp add: is_marks_Nil)
  show "\<forall>t \<in> set typos. \<forall>p \<in> set (occurrences t s).
          \<forall>j. p < j \<and> j < p + length t \<longrightarrow> ([]::string) = []" by simp
qed

text \<open>
  The amended claim C1 on \<^verbatim>\<open>'teh cat teh dgo dgo'\<close> with the first \<^verbatim>\<open>'teh'\<close> and the
  first \<^verbatim>\<open>'dgo'\<close> flagged: all four occurrences are wrapped.
\<close>

theorem each_occurrence_wrapped_when_undisturbed_witness:
  "get_typo_indexes
     [[[Num 9, Num 0], [Num 1, Num 5], [Num 2, Num 0], [Num 4, Num 0], [Num 0, Num 4],
       [Num 4, Num 0], [Num (9::int), Num 0]]]
     (token_to_words [''teh'', ''cat'', ''teh'', ''dgo'', ''dgo''])
     [''teh'', ''cat'', ''teh'', ''dgo'', ''dgo''] = Inr [2, 4] \<and>
   lookup_words (sentence_split ''teh cat teh dgo dgo'') [2, 4] = Inr [''teh'', ''dgo''] \<and>
   occurrences ''teh'' ''teh cat teh dgo dgo'' = [0, 8] \<and>
   occurrences ''dgo'' ''teh cat teh dgo dgo'' = [12, 16] \<and>
   undisturbed (\<lambda>k. []) [''teh'', ''dgo''] ''teh cat teh dgo dgo'' \<and>
   wrapped [''teh'', ''dgo''] ''teh cat teh dgo dgo''
     = ''<i>teh</i> cat <i>teh</i> <i>dgo</i> <i>dgo</i>'' \<and>
   show_typos (\<lambda>s. [''teh'', ''cat'', ''teh'', ''dgo'', ''dgo''])
     (\<lambda>s. [[[Num 9, Num 0], [Num 1, Num 5], [Num 2, Num 0], [Num 4, Num 0], [Num 0, Num 4],
               [Num 4, Num 0], [Num (9::int), Num 0]]])
     ''teh cat teh dgo dgo''
     = Inr (printed ''teh cat teh dgo dgo''
              ''<i>teh</i> cat <i>teh</i> <i>dgo</i> <i>dgo</i>'')"
proof -
  have g: "get_typo_indexes
     [[[Num 9, Num 0], [Num 1, Num 5], [Num 2, Num 0], [Num 4, Num 0], [Num 0, Num 4],
       [Num 4, Num 0], [Num (9::int), Num 0]]]
     (token_to_words [''teh'', ''cat'', ''teh'', ''dgo'', ''dgo''])
     [''teh'', ''cat'', ''teh'', ''dgo'', ''dgo''] = Inr [2, 4]"
    by (simp add: get_typo_indexes_def slice_inner_def np_argmax_def token_to_words_def
        startswith_def)
  have split: "sentence_split ''teh cat teh dgo dgo'' = [''teh'', ''cat'', ''teh'', ''dgo'', ''dgo'']"
    by (simp add: sentence_split_def re_split_def is_delim_def)
  have l: "lookup_words (sentence_split ''teh cat teh dgo dgo'') [2, 4] = Inr [''teh'', ''dgo'']"
    by (simp add: split py_index_def)
  have o1: "occurrences ''teh'' ''teh cat teh dgo dgo'' = [0, 8]"
    by (simp add: occurrences_def)
  have o2: "occurrences ''dgo'' ''teh cat teh dgo dgo'' = [12, 16]"
    by (simp add: occurrences_def)
  have n: "no_overlap [''teh'', ''dgo''] ''teh cat teh dgo dgo''"
    by (simp add: no_overlap_def o1 o2)
  have m: "list_all marker_safe (tl [''teh'', ''dgo''])"
    by (simp add: marker_safe_def)
  have e: "\<forall>t \<in> set [''teh'', ''dgo'']. t \<noteq> []" by simp
  have u: "undisturbed (\<lambda>k. []) [''teh'', ''dgo''] ''teh cat teh dgo dgo''"
    using e n m by (rule undisturbed_sufficient)
  have w: "wrapped [''teh'', ''dgo''] ''teh cat teh dgo dgo''
      = ''<i>teh</i> cat <i>teh</i> <i>dgo</i> <i>dgo</i>''"
    by (simp add: wrapped_def closings_def openings_def opens_at_def closes_at_def o1 o2)
  from each_occurrence_wrapped_when_undisturbed
         [where infer = "\<lambda>s. [[[Num 9, Num 0], [Num 1, Num 5], [Num 2, Num 0], [Num 4, Num 0],
                                  [Num 0, Num 4], [Num 4, Num 0], [Num (9::int), Num 0]]]"
            and tokenize = "\<lambda>s. [''teh'', ''cat'', ''teh'', ''dgo'', ''dgo'']"
            and sentence = "''teh cat teh dgo dgo''" and typo_indexes = "[2, 4]"
            and typos = "[''teh'', ''dgo'']", OF _ l u]
       g
  have "show_typos (\<lambda>s. [''teh'', ''cat'', ''teh'', ''dgo'', ''dgo''])
     (\<lambda>s. [[[Num 9, Num 0], [Num 1, Num 5], [Num 2, Num 0], [Num 4, Num 0], [Num 0, Num 4],
               [Num 4, Num 0], [Num (9::int), Num 0]]])
     ''teh cat teh dgo dgo''
     = Inr (printed ''teh cat teh dgo dgo'' (wrapped [''teh'', ''dgo''] ''teh cat teh dgo dgo''))"
    by simp
  with g l o1 o2 u w show ?thesis by (simp only: simp_thms)
qed

text \<open>
  Claim C1 as stated fails in three ways. In \<^verbatim>\<open>'ana banana'\<close> with \<^verbatim>\<open>'ana'\<close> flagged,
  \<^verbatim>\<open>'ana'\<close> occurs at the positions 0, 5 and 7; the scan resumes after each replaced
  occurrence, so the one at 7, which overlaps the one at 5, is not wrapped and the
  output holds two wrapped occurrences. In \<^verbatim>\<open>'teh i tehh'\<close> with \<^verbatim>\<open>'teh'\<close> and
  \<^verbatim>\<open>'i'\<close> flagged, \<^verbatim>\<open>'teh'\<close> occurs twice and both occurrences are wrapped first, but
  the replacement of \<^verbatim>\<open>'i'\<close> then rewrites the \<^verbatim>\<open>i\<close> of every marker: the output holds no
  \<^verbatim>\<open><i>teh</i>\<close> at all. In \<^verbatim>\<open>'teh tehh'\<close> with both words flagged, wrapping \<^verbatim>\<open>'teh'\<close>
  puts a marker inside the only occurrence of \<^verbatim>\<open>'tehh'\<close>, which the second replacement
  then does not find. In each case the output differs from the sentence with every
  occurrence wrapped.
\<close>

theorem annotation_leaves_occurrences_unwrapped:
  "get_typo_indexes
     [[[Num 9, Num 0], [Num 1, Num 5], [Num 4, Num 0], [Num (9::int), Num 0]]]
     (token_to_words [''ana'', ''banana'']) [''ana'', ''banana''] = Inr [0] \<and>
   lookup_words (sentence_split ''ana banana'') [0] = Inr [''ana''] \<and>
   occurrences ''ana'' ''ana banana'' = [0, 5, 7] \<and>
   wrapped [''ana''] ''ana banana'' = ''<i>ana</i> b<i>an<i>a</i>na</i>'' \<and>
   show_typos (\<lambda>s. [''ana'', ''banana''])
     (\<lambda>s. [[[Num 9, Num 0], [Num 1, Num 5], [Num 4, Num 0], [Num (9::int), Num 0]]])
     ''ana banana'' = Inr (printed ''ana banana'' ''<i>ana</i> b<i>ana</i>na'') \<and>
   occurrences ''<i>ana</i>'' ''<i>ana</i> b<i>ana</i>na'' = [0, 12] \<and>
   show_typos (\<lambda>s. [''ana'', ''banana''])
     (\<lambda>s. [[[Num 9, Num 0], [Num 1, Num 5], [Num 4, Num 0], [Num (9::int), Num 0]]])
     ''ana banana'' \<noteq> Inr (printed ''ana banana'' (wrapped [''ana''] ''ana banana'')) \<and>
   get_typo_indexes
     [[[Num 9, Num 0], [Num 1, Num 5], [Num 2, Num 6], [Num 4, Num 0], [Num (9::int), Num 0]]]
     (token_to_words [''teh'', ''i'', ''tehh'']) [''teh'', ''i'', ''tehh''] = Inr [0, 1] \<and>
   lookup_words (sentence_split ''teh i tehh'') [0, 1] = Inr [''teh'', ''i''] \<and>
   occurrences ''teh'' ''teh i tehh'' = [0, 6] \<and>
   wrapped [''teh'', ''i''] ''teh i tehh'' = ''<i>teh</i> <i>i</i> <i>teh</i>h'' \<and>
   show_typos (\<lambda>s. [''teh'', ''i'', ''tehh''])
     (\<lambda>s. [[[Num 9, Num 0], [Num 1, Num 5], [Num 2, Num 6], [Num 4, Num 0],
               [Num (9::int), Num 0]]])
     ''teh i tehh''
     = Inr (printed ''teh i tehh''
              ''<<i>i</i>>teh</<i>i</i>> <i>i</i> <<i>i</i>>teh</<i>i</i>>h'') \<and>
   occurrences ''<i>teh</i>'' ''<<i>i</i>>teh</<i>i</i>> <i>i</i> <<i>i</i>>teh</<i>i</i>>h''
     = [] \<and>
   show_typos (\<lambda>s. [''teh'', ''i'', ''tehh''])
     (\<lambda>s. [[[Num 9, Num 0], [Num 1, Num 5], [Num 2, Num 6], [Num 4, Num 0],
               [Num (9::int), Num 0]]])
     ''teh i tehh''
     \<noteq> Inr (printed ''teh i tehh'' (wrapped [''teh'', ''i''] ''teh i tehh'')) \<and>
   get_typo_indexes
     [[[Num 9, Num 0], [Num 1, Num 5], [Num 2, Num 6], [Num (9::int), Num 0]]]
     (token_to_words [''teh'', ''tehh'']) [''teh'', ''tehh''] = Inr [0, 1] \<and>
   lookup_words (sentence_split ''teh tehh'') [0, 1] = Inr [''teh'', ''tehh''] \<and>
   occurrences ''tehh'' ''teh tehh'' = [4] \<and>
   wrapped [''teh'', ''tehh''] ''teh tehh'' = ''<i>teh</i> <i><i>teh</i>h</i>'' \<and>
   show_typos (\<lambda>s. [''teh'', ''tehh''])
     (\<lambda>s. [[[Num 9, Num 0], [Num 1, Num 5], [Num 2, Num 6], [Num (9::int), Num 0]]])
     ''teh tehh'' = Inr (printed ''teh tehh'' ''<i>teh</i> <i>teh</i>h'') \<and>
   occurrences ''tehh'' ''<i>teh</i> <i>teh</i>h'' = [] \<and>
   show_typos (\<lambda>s. [''teh'', ''tehh''])
     (\<lambda>s. [[[Num 9, Num 0], [Num 1, Num 5], [Num 2, Num 6], [Num (9::int), Num 0]]])
     ''teh tehh'' \<noteq> Inr (printed ''teh tehh'' (wrapped [''teh'', ''tehh''] ''teh tehh''))"
proof -
  have ga: "get_typo_indexes
     [[[Num 9, Num 0], [Num 1, Num 5], [Num 4, Num 0], [Num (9::int), Num 0]]]
     (token_to_words [''ana'', ''banana'']) [''ana'', ''banana''] = Inr [0]"
    by (simp add: get_typo_indexes_def slice_inner_def np_argmax_def token_to_words_def
        startswith_def)
  have sa: "sentence_split ''ana banana'' = [''ana'', ''banana'']"
    by (simp add: sentence_split_def re_split_def is_delim_def)
  have la: "lookup_words (sentence_split ''ana banana'') [0] = Inr [''ana'']"
    by (simp add: sa py_index_def)
  have oa: "occurrences ''ana'' ''ana banana'' = [0, 5, 7]"
    by (simp add: occurrences_def)
  have wa: "wrapped [''ana''] ''ana banana'' = ''<i>ana</i> b<i>an<i>a</i>na</i>''"
    by (simp add: wrapped_def closings_def openings_def opens_at_def closes_at_def oa)
  have aa: "annotate ''ana banana'' [''ana''] = ''<i>ana</i> b<i>ana</i>na''"
    by (simp add: py_replace_def)
  have pa: "show_typos (\<lambda>s. [''ana'', ''banana''])
     (\<lambda>s. [[[Num 9, Num 0], [Num 1, Num 5], [Num 4, Num 0], [Num (9::int), Num 0]]])
     ''ana banana'' = Inr (printed ''ana banana'' ''<i>ana</i> b<i>ana</i>na'')"
    using ga la aa by (simp add: show_typos_def)
  have ca: "occurrences ''<i>ana</i>'' ''<i>ana</i> b<i>ana</i>na'' = [0, 12]"
    by (simp add: occurrences_def)
  have na: "show_typos (\<lambda>s. [''ana'', ''banana''])
     (\<lambda>s. [[[Num 9, Num 0], [Num 1, Num 5], [Num 4, Num 0], [Num (9::int), Num 0]]])
     ''ana banana'' \<noteq> Inr (printed ''ana banana'' (wrapped [''ana''] ''ana banana''))"
    unfolding pa wa by (simp add: printed_def)
  have gb: "get_typo_indexes
     [[[Num 9, Num 0], [Num 1, Num 5], [Num 2, Num 6], [Num 4, Num 0], [Num (9::int), Num 0]]]
     (token_to_words [''teh'', ''i'', ''tehh'']) [''teh'', ''i'', ''tehh''] = Inr [0, 1]"
    by (simp add: get_typo_indexes_def slice_inner_def np_argmax_def token_to_words_def
        startswith_def)
  have sb: "sentence_split ''teh i tehh'' = [''teh'', ''i'', ''tehh'']"
    by (simp add: sentence_split_def re_split_def is_delim_def)
  have lb: "lookup_words (sentence_split ''teh i tehh'') [0, 1] = Inr [''teh'', ''i'']"
    by (simp add: sb py_index_def)
  have ob: "occurrences ''teh'' ''teh i tehh'' = [0, 6]"
    by (simp add: occurrences_def)
  have oi: "occurrences ''i'' ''teh i tehh'' = [4]"
    by (simp add: occurrences_def)
  have wb: "wrapped [''teh'', ''i''] ''teh i tehh'' = ''<i>teh</i> <i>i</i> <i>teh</i>h''"
    by (simp add: wrapped_def closings_def openings_def opens_at_def closes_at_def ob oi)
  have ab: "annotate ''teh i tehh'' [''teh'', ''i'']
      = ''<<i>i</i>>teh</<i>i</i>> <i>i</i> <<i>i</i>>teh</<i>i</i>>h''"
    by (simp add: py_replace_def)
  have pb: "show_typos (\<lambda>s. [''teh'', ''i'', ''tehh''])
     (\<lambda>s. [[[Num 9, Num 0], [Num 1, Num 5], [Num 2, Num 6], [Num 4, Num 0],
               [Num (9::int), Num 0]]])
     ''teh i tehh''
     = Inr (printed ''teh i tehh''
              ''<<i>i</i>>teh</<i>i</i>> <i>i</i> <<i>i</i>>teh</<i>i</i>>h'')"
    using gb lb ab by (simp add: show_typos_def)
  have cb: "occurrences ''<i>teh</i>''
      ''<<i>i</i>>teh</<i>i</i>> <i>i</i> <<i>i</i>>teh</<i>i</i>>h'' = []"
    by (simp add: occurrences_def)
  have nb: "show_typos (\<lambda>s. [''teh'', ''i'', ''tehh''])
     (\<lambda>s. [[[Num 9, Num 0], [Num 1, Num 5], [Num 2, Num 6], [Num 4, Num 0],
               [Num (9::int), Num 0]]])
     ''teh i tehh''
     \<noteq> Inr (printed ''teh i tehh'' (wrapped [''teh'', ''i''] ''teh i tehh''))"
    unfolding pb wb by (simp add: printed_def)
  have gc: "get_typo_indexes
     [[[Num 9, Num 0], [Num 1, Num 5], [Num 2, Num 6], [Num (9::int), Num 0]]]
     (token_to_words [''teh'', ''tehh'']) [''teh'', ''tehh''] = Inr [0, 1]"
    by (simp add: get_typo_indexes_def slice_inner_def np_argmax_def token_to_words_def
        startswith_def)
  have sc: "sentence_split ''teh tehh'' = [''teh'', ''tehh'']"
    by (simp add: sentence_split_def re_split_def is_delim_def)
  have lc: "lookup_words (sentence_split ''teh tehh'') [0, 1] = Inr [''teh'', ''tehh'']"
    by (simp add: sc py_index_def)
  have oc: "occurrences ''tehh'' ''teh tehh'' = [4]"
    by (simp add: occurrences_def)
  have ot: "occurrences ''teh'' ''teh tehh'' = [0, 4]"
    by (simp add: occurrences_def)
  have wc: "wrapped [''teh'', ''tehh''] ''teh tehh'' = ''<i>teh</i> <i><i>teh</i>h</i>''"
    by (simp add: wrapped_def closings_def openings_def opens_at_def closes_at_def oc ot)
  have ac: "annotate ''teh tehh'' [''teh'', ''tehh''] = ''<i>teh</i> <i>teh</i>h''"
    by (simp add: py_replace_def)
  have pc: "show_typos (\<lambda>s. [''teh'', ''tehh''])
     (\<lambda>s. [[[Num 9, Num 0], [Num 1, Num 5], [Num 2, Num 6], [Num (9::int), Num 0]]])
     ''teh tehh'' = Inr (printed ''teh tehh'' ''<i>teh</i> <i>teh</i>h'')"
    using gc lc ac by (simp add: show_typos_def)
  have cc: "occurrences ''tehh'' ''<i>teh</i> <i>teh</i>h'' = []"
    by (simp add: occurrences_def)
  have nc: "show_typos (\<lambda>s. [''teh'', ''tehh''])
     (\<lambda>s. [[[Num 9, Num 0], [Num 1, Num 5], [Num 2, Num 6], [Num (9::int), Num 0]]])
     ''teh tehh'' \<noteq> Inr (printed ''teh tehh'' (wrapped [''teh'', ''tehh''] ''teh tehh''))"
    unfolding pc wc by (simp add: printed_def)
  from ga la oa wa pa ca na gb lb ob wb pb cb nb gc lc oc wc pc cc nc
  show ?thesis by (simp only: simp_thms)
qed

text \<open>The three inputs above do not meet the condition of the amended claim.\<close>

lemma counterexamples_disturbed:
  "\<not> undisturbed (\<lambda>k. []) [''ana''] ''ana banana'' \<and>
   \<not> undisturbed (\<lambda>k. []) [''teh'', ''i''] ''teh i tehh'' \<and>
   \<not> undisturbed (\<lambda>k. []) [''teh'', ''tehh''] ''teh tehh''"
proof -
  have oa: "occurrences ''ana'' ''ana banana'' = [0, 5, 7]"
    by (simp add: occurrences_def)
  have a: "\<not> undisturbed (\<lambda>k. []) [''ana''] ''ana banana''"
    by (simp add: apart_def oa)
  have ot: "occurrences ''teh'' ''teh i tehh'' = [0, 6]"
    by (simp add: occurrences_def)
  have "new_match ''i'' (add_marks ''teh'' ''teh i tehh'' (\<lambda>k. [])) 0 ''teh i tehh''"
    by (simp add: add_marks_def closes_at_def opens_at_def ot)
  then have b: "\<not> undisturbed (\<lambda>k. []) [''teh'', ''i''] ''teh i tehh''" by simp
  have o3: "occurrences ''teh'' ''teh tehh'' = [0, 4]"
    by (simp add: occurrences_def)
  have o4: "occurrences ''tehh'' ''teh tehh'' = [4]"
    by (simp add: occurrences_def)
  have "\<not> unmarked_inside ''tehh'' (add_marks ''teh'' ''teh tehh'' (\<lambda>k. [])) ''teh tehh''"
    by (simp add: unmarked_inside_def add_marks_def closes_at_def opens_at_def o3 o4)
  then have c: "\<not> undisturbed (\<lambda>k. []) [''teh'', ''tehh''] ''teh tehh''" by simp
  from a b c show ?thesis by simp
qed

end
